theory Spec2Isabelle
  imports Main "HOL-Library.Word"
begin

section \<open>The reactor library as the core sees it\<close>

text \<open>
  The networking core (Socket, NetworkThread, Listener) sits on libevent, whose source is
  not part of the repository. A bufferevent is modelled by the two byte queues the core
  reads and writes; every other libevent entry point the core calls is recorded, with its
  argument, in the list \<open>calls\<close> of the world, in call order. A handle
  (\<open>struct bufferevent *\<close>) is an address; \<open>None\<close> is \<open>nullptr\<close>.
\<close>

type_synonym byte = "8 word"
type_synonym bev = nat
type_synonym sockptr = nat

datatype fault = UseAfterFree | ReadAssertFailed | DtorAssertFailed | OutOfRange

record bufferevent =
  ev_input :: "byte list"
  ev_output :: "byte list"

datatype call =
    Bev_socket_new int bev
  | Bev_setcb bev bool
  | Bev_enable bev
  | Bev_disable bev
  | Bev_lock "bev option"
  | Bev_unlock "bev option"
  | Bev_free bev
  | CloseHandler sockptr

record world =
  bevs :: "bev \<rightharpoonup> bufferevent"
  next_bev :: bev
  calls :: "call list"
  errno :: int
  sLog :: "string list"

definition record_call :: "call \<Rightarrow> world \<Rightarrow> world" where
  "record_call c w = w\<lparr>calls := calls w @ [c]\<rparr>"

text \<open>
  Modelled from the spec: libevent's \<open>bufferevent_socket_new\<close> is not under src/; it
  returns a fresh stream handle with empty inbound and outbound buffers.
\<close>

definition bufferevent_socket_new :: "int \<Rightarrow> world \<Rightarrow> bev \<times> world" where
  "bufferevent_socket_new fd w =
     (let b = next_bev w
      in (b, record_call (Bev_socket_new fd b)
               (w\<lparr>bevs := (bevs w)(b \<mapsto> \<lparr>ev_input = [], ev_output = []\<rparr>),
                   next_bev := Suc b\<rparr>)))"

text \<open>
  Modelled from the spec: libevent's \<open>bufferevent_free\<close> is not under src/; it
  releases the stream (closing the fd, the stream having close-on-free semantics), after
  which the handle is dangling.
\<close>

definition bufferevent_free :: "bev \<Rightarrow> world \<Rightarrow> world" where
  "bufferevent_free b w = record_call (Bev_free b) (w\<lparr>bevs := (bevs w)(b := None)\<rparr>)"

text \<open>
  Modelled from the spec: libevent's \<open>bufferevent_read\<close> is not under src/; it removes
  up to \<open>n\<close> bytes from the head of the inbound buffer and returns them (their
  number is its return value).
\<close>

definition bufferevent_read :: "bev \<Rightarrow> nat \<Rightarrow> bufferevent \<Rightarrow> world \<Rightarrow> byte list \<times> world" where
  "bufferevent_read b n be w =
     (take n (ev_input be), w\<lparr>bevs := (bevs w)(b \<mapsto> be\<lparr>ev_input := drop n (ev_input be)\<rparr>)\<rparr>)"

text \<open>
  Modelled from the spec: libevent's \<open>evbuffer_drain\<close> is not under src/; it drops up
  to \<open>len\<close> bytes from the head of the buffer, all of them when fewer are present.
\<close>

definition evbuffer_drain :: "bev \<Rightarrow> nat \<Rightarrow> bufferevent \<Rightarrow> world \<Rightarrow> world" where
  "evbuffer_drain b len be w = w\<lparr>bevs := (bevs w)(b \<mapsto> be\<lparr>ev_input := drop len (ev_input be)\<rparr>)\<rparr>"

text \<open>
  Modelled from the spec: libevent's \<open>bufferevent_write\<close> is not under src/; it
  appends the bytes to the outbound buffer, which is sent in FIFO order.
\<close>

definition bufferevent_write :: "bev \<Rightarrow> byte list \<Rightarrow> bufferevent \<Rightarrow> world \<Rightarrow> world" where
  "bufferevent_write b data be w = w\<lparr>bevs := (bevs w)(b \<mapsto> be\<lparr>ev_output := ev_output be @ data\<rparr>)\<rparr>"

text \<open>
  An \<open>int\<close> argument compared with, or passed as, a \<open>size_t\<close> is converted to
  the unsigned 64-bit type: a negative length becomes a huge one.
\<close>

definition size_t_of_int :: "32 word \<Rightarrow> nat" where
  "size_t_of_int n = nat (sint n mod 2 ^ 64)"

text \<open>\<open>static_cast<int>\<close> of a \<open>size_t\<close>: the low 32 bits, read as two's complement.\<close>

definition int_of_size_t :: "nat \<Rightarrow> int" where
  "int_of_size_t n = signed_take_bit 31 (int n)"

section \<open>Socket\<close>

text \<open>
  The only closure the repository ever stores in \<open>m_closeHandler\<close> is the lambda of
  \<open>NetworkThread::CreateSocket\<close>, which calls \<open>RemoveSocket\<close> on the worker that
  made the socket; an empty \<open>std::function\<close> is \<open>None\<close>.
\<close>

datatype closure = RemoveSocket_lambda

record Socket =
  m_bev :: "bev option"
  m_closeHandler :: "closure option"
  m_address :: string
  m_remoteEndpoint :: string

text \<open>
  \<open>Socket::Close\<close>. \<open>invoke\<close> runs a stored closure on the state \<open>a\<close> of
  whoever owns the socket; \<open>this\<close> is the address of the socket. In one thread the
  two null checks (before and after taking the read and write locks) see the same value.
  The argument of \<open>bufferevent_unlock\<close> is the field \<open>m_bev\<close>, read after the
  field has been set to null.
\<close>

definition Close ::
  "(closure \<Rightarrow> sockptr \<Rightarrow> 'a \<Rightarrow> 'a) \<Rightarrow> sockptr \<Rightarrow> Socket \<Rightarrow> world \<Rightarrow> 'a
     \<Rightarrow> fault + (Socket \<times> world \<times> 'a)" where
  "Close invoke this s w a =
     (case m_bev s of
        None \<Rightarrow> Inr (s, w, a)
      | Some b \<Rightarrow>
          (case bevs w b of
             None \<Rightarrow> Inl UseAfterFree
           | Some be \<Rightarrow>
               (let w1 = record_call (Bev_lock (m_bev s)) w;
                    w2 = record_call (Bev_disable b) w1;
                    w3 = record_call (Bev_setcb b False) w2;
                    l_bev = b;
                    s' = s\<lparr>m_bev := None\<rparr>;
                    w4 = record_call (Bev_unlock (m_bev s')) w3;
                    w5 = bufferevent_free l_bev w4
                in (case m_closeHandler s' of
                      None \<Rightarrow> Inr (s', w5, a)
                    | Some h \<Rightarrow> Inr (s', record_call (CloseHandler this) w5, invoke h this a)))))"

definition IsClosed :: "Socket \<Rightarrow> bool" where
  "IsClosed s = (m_bev s = None)"

text \<open>
  \<open>Socket::Read\<close>: the result is the returned flag and the bytes stored into
  \<open>buffer\<close> (none when nothing is stored).
\<close>

definition Read :: "Socket \<Rightarrow> 32 word \<Rightarrow> world \<Rightarrow> fault + ((bool \<times> byte list) \<times> world)" where
  "Read s len w =
     (case m_bev s of
        None \<Rightarrow> Inr ((False, []), w)
      | Some b \<Rightarrow>
          (case bevs w b of
             None \<Rightarrow> Inl UseAfterFree
           | Some be \<Rightarrow>
               if length (ev_input be) < size_t_of_int len then Inr ((False, []), w)
               else (let (got, w') = bufferevent_read b (size_t_of_int len) be w
                     in if int_of_size_t (length got) = sint len then Inr ((True, got), w')
                        else Inl ReadAssertFailed)))"

definition Write :: "Socket \<Rightarrow> byte list \<Rightarrow> world \<Rightarrow> fault + world" where
  "Write s data w =
     (case m_bev s of
        None \<Rightarrow> Inr w
      | Some b \<Rightarrow>
          (case bevs w b of
             None \<Rightarrow> Inl UseAfterFree
           | Some be \<Rightarrow> Inr (bufferevent_write b data be w)))"

definition ReadLengthRemaining :: "Socket \<Rightarrow> world \<Rightarrow> fault + int" where
  "ReadLengthRemaining s w =
     (case m_bev s of
        None \<Rightarrow> Inr 0
      | Some b \<Rightarrow>
          (case bevs w b of
             None \<Rightarrow> Inl UseAfterFree
           | Some be \<Rightarrow> Inr (int_of_size_t (length (ev_input be)))))"

definition ReadSkip :: "Socket \<Rightarrow> 32 word \<Rightarrow> world \<Rightarrow> fault + world" where
  "ReadSkip s len w =
     (case m_bev s of
        None \<Rightarrow> Inr w
      | Some b \<Rightarrow>
          (case bevs w b of
             None \<Rightarrow> Inl UseAfterFree
           | Some be \<Rightarrow> Inr (evbuffer_drain b (size_t_of_int len) be w)))"

text \<open>\<open>Socket::InPeek\<close>: the result is the byte the returned pointer points to.\<close>

definition InPeek :: "Socket \<Rightarrow> world \<Rightarrow> fault + byte option" where
  "InPeek s w =
     (case m_bev s of
        None \<Rightarrow> Inr None
      | Some b \<Rightarrow>
          (case bevs w b of
             None \<Rightarrow> Inl UseAfterFree
           | Some be \<Rightarrow>
               if length (ev_input be) < 1 then Inr None else Inr (Some (hd (ev_input be)))))"

text \<open>Calling \<open>Close\<close> on the same socket \<open>n\<close> times in a row.\<close>

primrec Close_times ::
  "(closure \<Rightarrow> sockptr \<Rightarrow> 'a \<Rightarrow> 'a) \<Rightarrow> sockptr \<Rightarrow> nat \<Rightarrow> Socket \<Rightarrow> world \<Rightarrow> 'a
     \<Rightarrow> fault + (Socket \<times> world \<times> 'a)" where
  "Close_times invoke this 0 s w a = Inr (s, w, a)"
| "Close_times invoke this (Suc n) s w a =
     (case Close invoke this s w a of
        Inl e \<Rightarrow> Inl e
      | Inr (s', w', a') \<Rightarrow> Close_times invoke this n s' w' a')"

text \<open>
  The constructor. The peer's address arrives as a \<open>sockaddr_in\<close>: \<open>sin_addr\<close> is
  the four address bytes in memory order, \<open>sin_port\<close> the 16-bit field as the host
  reads it.
\<close>

record sockaddr_in =
  sin_port :: "16 word"
  sin_addr :: "byte \<times> byte \<times> byte \<times> byte"

text \<open>\<open>std::to_string\<close> of a non-negative integer: its decimal digits.\<close>

fun to_string :: "nat \<Rightarrow> string" where
  "to_string n =
     (if n < 10 then [''0123456789'' ! n]
      else to_string (n div 10) @ [''0123456789'' ! (n mod 10)])"

declare to_string.simps [simp del]

text \<open>
  Modelled from the spec: libc's \<open>inet_ntop\<close> is not under src/; for \<open>AF_INET\<close> it
  renders the four address bytes as the text "a.b.c.d", each byte in decimal.
\<close>

definition inet_ntop :: "byte \<times> byte \<times> byte \<times> byte \<Rightarrow> string" where
  "inet_ntop ad =
     (case ad of (a, b, c, d) \<Rightarrow>
        to_string (unat a) @ ''.'' @ to_string (unat b) @ ''.'' @ to_string (unat c) @ ''.''
          @ to_string (unat d))"

definition Socket_ctor :: "int \<Rightarrow> sockaddr_in \<Rightarrow> closure option \<Rightarrow> world \<Rightarrow> Socket \<times> world" where
  "Socket_ctor fd address closeHandler w =
     (let saddr = inet_ntop (sin_addr address);
          (b, w1) = bufferevent_socket_new fd w;
          w2 = record_call (Bev_setcb b True) w1;
          w3 = record_call (Bev_enable b) w2
      in (\<lparr>m_bev = Some b, m_closeHandler = closeHandler, m_address = saddr,
           m_remoteEndpoint = saddr @ '':'' @ to_string (unat (sin_port address))\<rparr>, w3))"

definition GetRemoteEndpoint :: "Socket \<Rightarrow> string" where
  "GetRemoteEndpoint s = m_remoteEndpoint s"

definition GetRemoteAddress :: "Socket \<Rightarrow> string" where
  "GetRemoteAddress s = m_address s"

text \<open>
  Modelled from the spec: libc's \<open>htons\<close> and the kernel's \<open>accept\<close> are not under
  src/. \<open>htons\<close> puts a port in network byte order (most significant byte first): on a
  little-endian host it swaps the two bytes, on a big-endian host it is the identity.
  \<open>accept\<close> reports the peer a.b.c.d, port p with the port in network byte order.
\<close>

datatype endian = LittleEndian | BigEndian

definition htons :: "endian \<Rightarrow> 16 word \<Rightarrow> 16 word" where
  "htons e x = (case e of BigEndian \<Rightarrow> x | LittleEndian \<Rightarrow> or (push_bit 8 x) (drop_bit 8 x))"

definition accepted_sockaddr :: "endian \<Rightarrow> byte \<times> byte \<times> byte \<times> byte \<Rightarrow> 16 word \<Rightarrow> sockaddr_in" where
  "accepted_sockaddr e ad p = \<lparr>sin_port = htons e p, sin_addr = ad\<rparr>"

text \<open>
  The read-ready callback. \<open>ProcessIncomingData\<close> is pure virtual: it is the parameter
  \<open>pid\<close>, which may use the socket, the world (it sets \<open>errno\<close> there) and the rest
  of the program. The loop ends only when the buffer is empty or the handler returns
  false, so a run that never ends is the value \<open>None\<close>.
\<close>

text \<open>
  Modelled from the spec: the value of \<open>EBADMSG\<close> comes from the system header
  \<open>errno.h\<close>, which is not under src/; on Linux it is 74.
\<close>

definition EBADMSG :: int where
  "EBADMSG = 74"

partial_function (option) ReadCallback ::
  "(Socket \<times> world \<times> 'a \<Rightarrow> fault + (bool \<times> Socket \<times> world \<times> 'a)) \<Rightarrow> Socket \<times> world \<times> 'a
     \<Rightarrow> (fault + (Socket \<times> world \<times> 'a)) option" where
  "ReadCallback pid st =
     (case ReadLengthRemaining (fst st) (fst (snd st)) of
        Inl e \<Rightarrow> Some (Inl e)
      | Inr n \<Rightarrow>
          if 0 < n then
            (case pid st of
               Inl e \<Rightarrow> Some (Inl e)
             | Inr r \<Rightarrow>
                 if \<not> fst r then
                   (if errno (fst (snd (snd r))) = EBADMSG
                    then Some (Inr (fst (snd r),
                                    (fst (snd (snd r)))\<lparr>sLog := sLog (fst (snd (snd r)))
                                       @ [''Socket::ReadCallback incomplete read!!!'']\<rparr>,
                                    snd (snd (snd r))))
                    else Some (Inr (snd r)))
                 else ReadCallback pid (snd r))
          else Some (Inr st))"

section \<open>NetworkThread\<close>

text \<open>
  A worker owns its sockets through two lists of \<open>unique_ptr\<close>: the lists hold the
  addresses, the \<open>Socket\<close> objects live in the heap of the program, and destroying
  one removes it from the heap. \<open>lock_log\<close> is the order in which the worker's two
  mutexes are taken and released.
\<close>

datatype mutex = SocketLock | ClosingSocketLock

datatype lock_event = Acquire mutex | Release mutex

record NetworkThread =
  m_sockets :: "sockptr list"
  m_closingSockets :: "sockptr list"
  m_pendingShutdown :: bool
  lock_log :: "lock_event list"

record program =
  heap :: "sockptr \<rightharpoonup> Socket"
  next_sock :: sockptr
  the_world :: world

definition Size :: "NetworkThread \<Rightarrow> nat" where
  "Size nt = length (m_sockets nt)"

definition RemoveSocket :: "sockptr \<Rightarrow> NetworkThread \<Rightarrow> NetworkThread" where
  "RemoveSocket socket nt =
     (let nt1 = nt\<lparr>lock_log := lock_log nt @ [Acquire SocketLock, Acquire ClosingSocketLock]\<rparr>;
          nt2 = (if socket \<in> set (m_sockets nt1)
                 then nt1\<lparr>m_closingSockets := socket # m_closingSockets nt1,
                          m_sockets := remove1 socket (m_sockets nt1)\<rparr>
                 else nt1)
      in nt2\<lparr>lock_log := lock_log nt2 @ [Release ClosingSocketLock, Release SocketLock]\<rparr>)"

definition CreateSocket ::
  "int \<Rightarrow> sockaddr_in \<Rightarrow> NetworkThread \<Rightarrow> program \<Rightarrow> NetworkThread \<times> program" where
  "CreateSocket fd address nt pr =
     (let (s, w') = Socket_ctor fd address (Some RemoveSocket_lambda) (the_world pr);
          p = next_sock pr
      in (nt\<lparr>m_sockets := p # m_sockets nt,
              lock_log := lock_log nt @ [Acquire SocketLock, Release SocketLock]\<rparr>,
          pr\<lparr>heap := (heap pr)(p \<mapsto> s), next_sock := Suc p, the_world := w'\<rparr>))"

text \<open>The closure stored by \<open>CreateSocket\<close>, run on the worker that made the socket.\<close>

definition run_closure :: "closure \<Rightarrow> sockptr \<Rightarrow> NetworkThread \<Rightarrow> NetworkThread" where
  "run_closure h socket nt = (case h of RemoveSocket_lambda \<Rightarrow> RemoveSocket socket nt)"

text \<open>
  The operations of \<open>Socket\<close> called through a pointer to a socket of the worker. A
  pointer to a destroyed socket is a use after free.
\<close>

definition Close_at :: "sockptr \<Rightarrow> NetworkThread \<Rightarrow> program \<Rightarrow> fault + (NetworkThread \<times> program)" where
  "Close_at p nt pr =
     (case heap pr p of
        None \<Rightarrow> Inl UseAfterFree
      | Some s \<Rightarrow>
          (case Close run_closure p s (the_world pr) nt of
             Inl e \<Rightarrow> Inl e
           | Inr (s', w', nt') \<Rightarrow> Inr (nt', pr\<lparr>heap := (heap pr)(p \<mapsto> s'), the_world := w'\<rparr>)))"

definition Read_at :: "sockptr \<Rightarrow> 32 word \<Rightarrow> program \<Rightarrow> fault + program" where
  "Read_at p len pr =
     (case heap pr p of
        None \<Rightarrow> Inl UseAfterFree
      | Some s \<Rightarrow>
          (case Read s len (the_world pr) of
             Inl e \<Rightarrow> Inl e
           | Inr (r, w') \<Rightarrow> Inr (pr\<lparr>the_world := w'\<rparr>)))"

definition Write_at :: "sockptr \<Rightarrow> byte list \<Rightarrow> program \<Rightarrow> fault + program" where
  "Write_at p data pr =
     (case heap pr p of
        None \<Rightarrow> Inl UseAfterFree
      | Some s \<Rightarrow>
          (case Write s data (the_world pr) of
             Inl e \<Rightarrow> Inl e
           | Inr w' \<Rightarrow> Inr (pr\<lparr>the_world := w'\<rparr>)))"

definition ReadSkip_at :: "sockptr \<Rightarrow> 32 word \<Rightarrow> program \<Rightarrow> fault + program" where
  "ReadSkip_at p len pr =
     (case heap pr p of
        None \<Rightarrow> Inl UseAfterFree
      | Some s \<Rightarrow>
          (case ReadSkip s len (the_world pr) of
             Inl e \<Rightarrow> Inl e
           | Inr w' \<Rightarrow> Inr (pr\<lparr>the_world := w'\<rparr>)))"

text \<open>\<open>Socket::~Socket\<close>: \<open>assert(IsClosed())\<close>, then the object is gone.\<close>

definition Socket_dtor :: "sockptr \<Rightarrow> program \<Rightarrow> fault + program" where
  "Socket_dtor p pr =
     (case heap pr p of
        None \<Rightarrow> Inl UseAfterFree
      | Some s \<Rightarrow>
          if IsClosed s then Inr (pr\<lparr>heap := (heap pr)(p := None)\<rparr>)
          else Inl DtorAssertFailed)"

text \<open>
  The walk over the closing list in \<open>SocketCleanupWork\<close>: a closed socket is erased,
  which destroys it; the others stay, in order.
\<close>

fun cleanup_walk :: "sockptr list \<Rightarrow> program \<Rightarrow> fault + (sockptr list \<times> program)" where
  "cleanup_walk [] pr = Inr ([], pr)"
| "cleanup_walk (p # ps) pr =
     (case heap pr p of
        None \<Rightarrow> Inl UseAfterFree
      | Some s \<Rightarrow>
          if IsClosed s then
            (case Socket_dtor p pr of
               Inl e \<Rightarrow> Inl e
             | Inr pr' \<Rightarrow> cleanup_walk ps pr')
          else
            (case cleanup_walk ps pr of
               Inl e \<Rightarrow> Inl e
             | Inr (ps', pr') \<Rightarrow> Inr (p # ps', pr')))"

text \<open>
  The body of the loop of \<open>SocketCleanupWork\<close> (the sleep apart), and the loop, which
  runs while the worker is not shutting down or the closing list is not empty.
\<close>

definition SocketCleanupWork_body ::
  "NetworkThread \<Rightarrow> program \<Rightarrow> fault + (NetworkThread \<times> program)" where
  "SocketCleanupWork_body nt pr =
     (case cleanup_walk (m_closingSockets nt) pr of
        Inl e \<Rightarrow> Inl e
      | Inr (ps', pr') \<Rightarrow>
          Inr (nt\<lparr>m_closingSockets := ps',
                  lock_log := lock_log nt
                     @ [Acquire ClosingSocketLock, Release ClosingSocketLock]\<rparr>, pr'))"

partial_function (option) SocketCleanupWork ::
  "NetworkThread \<times> program \<Rightarrow> (fault + (NetworkThread \<times> program)) option" where
  "SocketCleanupWork st =
     (if \<not> m_pendingShutdown (fst st) \<or> m_closingSockets (fst st) \<noteq> [] then
        (case SocketCleanupWork_body (fst st) (snd st) of
           Inl e \<Rightarrow> Some (Inl e)
         | Inr st' \<Rightarrow> SocketCleanupWork st')
      else Some (Inr st))"

text \<open>
  The loop of \<open>~NetworkThread\<close> over the live list: a closed head is erased (and
  destroyed), any other head is closed, which moves it to the closing list through its
  close handler.
\<close>

function close_all :: "NetworkThread \<Rightarrow> program \<Rightarrow> fault + (NetworkThread \<times> program)" where
  "close_all nt pr =
     (case m_sockets nt of
        [] \<Rightarrow> Inr (nt, pr)
      | p # ps \<Rightarrow>
          (case heap pr p of
             None \<Rightarrow> Inl UseAfterFree
           | Some s \<Rightarrow>
               if IsClosed s then
                 (case Socket_dtor p pr of
                    Inl e \<Rightarrow> Inl e
                  | Inr pr' \<Rightarrow> close_all (nt\<lparr>m_sockets := ps\<rparr>) pr')
               else
                 (case Close_at p nt pr of
                    Inl e \<Rightarrow> Inl e
                  | Inr (nt', pr') \<Rightarrow> close_all nt' pr')))"
  by pat_completeness auto

termination close_all
proof (relation "measure (\<lambda>(nt, pr). 2 * length (m_sockets nt)
          + (case m_sockets nt of [] \<Rightarrow> 0
             | p # ps \<Rightarrow> (case heap pr p of None \<Rightarrow> 0 | Some s \<Rightarrow> if IsClosed s then 0 else 1)))")
  show "wf (measure (\<lambda>(nt, pr). 2 * length (m_sockets nt)
          + (case m_sockets nt of [] \<Rightarrow> 0
             | p # ps \<Rightarrow> (case heap pr p of None \<Rightarrow> 0 | Some s \<Rightarrow> if IsClosed s then 0 else 1))))"
    by simp
next
  fix nt pr p ps s pr'
  assume "m_sockets nt = p # ps" "heap pr p = Some s" "IsClosed s" "Socket_dtor p pr = Inr pr'"
  then show "((nt\<lparr>m_sockets := ps\<rparr>, pr'), nt, pr) \<in> measure (\<lambda>(nt, pr). 2 * length (m_sockets nt)
          + (case m_sockets nt of [] \<Rightarrow> 0
             | p # ps \<Rightarrow> (case heap pr p of None \<Rightarrow> 0 | Some s \<Rightarrow> if IsClosed s then 0 else 1)))"
    by (auto split: list.splits option.splits)
next
  fix nt pr p ps s x nt' pr'
  assume a: "m_sockets nt = p # ps" "heap pr p = Some s" "\<not> IsClosed s" "Close_at p nt pr = Inr x"
     "(nt', pr') = x"
  show "((nt', pr'), nt, pr) \<in> measure (\<lambda>(nt, pr). 2 * length (m_sockets nt)
          + (case m_sockets nt of [] \<Rightarrow> 0
             | p # ps \<Rightarrow> (case heap pr p of None \<Rightarrow> 0 | Some s \<Rightarrow> if IsClosed s then 0 else 1)))"
  proof -
    obtain b where b: "m_bev s = Some b" using a(3) by (auto simp: IsClosed_def)
    have x: "Close_at p nt pr = Inr (nt', pr')" using a(4,5) by simp
    then obtain be where be: "bevs (the_world pr) b = Some be"
      using a(2) b by (auto simp: Close_at_def Close_def split: option.splits)
    have nt': "nt' = (case m_closeHandler s of None \<Rightarrow> nt | Some h \<Rightarrow> run_closure h p nt)"
      and hp: "heap pr' p = Some (s\<lparr>m_bev := None\<rparr>)"
      using x a(2) b be by (auto simp: Close_at_def Close_def Let_def split: option.splits)
    show ?thesis
    proof (cases "m_closeHandler s")
      case None
      then show ?thesis using nt' hp a(1,2,3) by (simp add: IsClosed_def)
    next
      case (Some h)
      then have "m_sockets nt' = ps"
        using nt' a(1) by (cases h) (simp add: run_closure_def RemoveSocket_def Let_def)
      then show ?thesis using a(1) by (auto split: list.splits option.splits)
    qed
  qed
qed

declare close_all.simps [simp del]

text \<open>Destroying a list of \<open>unique_ptr\<close> destroys each socket it still owns.\<close>

fun destroy_list :: "sockptr list \<Rightarrow> program \<Rightarrow> fault + program" where
  "destroy_list [] pr = Inr pr"
| "destroy_list (p # ps) pr =
     (case Socket_dtor p pr of
        Inl e \<Rightarrow> Inl e
      | Inr pr' \<Rightarrow> destroy_list ps pr')"

text \<open>
  \<open>~NetworkThread\<close>: the loop over the live list, the shutdown flag, the join of the
  cleanup thread (which runs its loop to the end), and then the members: the closing list
  and the live list are destroyed with what they still hold. The result is \<open>None\<close>
  when the join never returns. Stopping the service thread and freeing the reactor base,
  which touch no socket, are left out.
\<close>

definition NetworkThread_dtor ::
  "NetworkThread \<Rightarrow> program \<Rightarrow> (fault + (NetworkThread \<times> program)) option" where
  "NetworkThread_dtor nt pr =
     (case close_all nt pr of
        Inl e \<Rightarrow> Some (Inl e)
      | Inr (nt1, pr1) \<Rightarrow>
          (case SocketCleanupWork (nt1\<lparr>m_pendingShutdown := True\<rparr>, pr1) of
             None \<Rightarrow> None
           | Some (Inl e) \<Rightarrow> Some (Inl e)
           | Some (Inr (nt2, pr2)) \<Rightarrow>
               (case destroy_list (m_closingSockets nt2) pr2 of
                  Inl e \<Rightarrow> Some (Inl e)
                | Inr pr3 \<Rightarrow>
                    (case destroy_list (m_sockets nt2) pr3 of
                       Inl e \<Rightarrow> Some (Inl e)
                     | Inr pr4 \<Rightarrow>
                         Some (Inr (nt2\<lparr>m_closingSockets := [], m_sockets := []\<rparr>, pr4))))))"

text \<open>
  The life of a worker before its destruction, one thread at a time: the acceptor hands
  it a connection, some thread calls an operation of a socket through a pointer (Close is
  called by the application, or by the event callback on end of file or on an error), or
  the cleanup thread runs one turn of its loop. \<open>RemoveSocket\<close> runs only as the
  close handler of a socket, its one caller in the repository.
\<close>

datatype action =
    Accept int sockaddr_in
  | CloseOp sockptr
  | ReadOp sockptr "32 word"
  | WriteOp sockptr "byte list"
  | ReadSkipOp sockptr "32 word"
  | CleanupTurn

fun step :: "action \<Rightarrow> NetworkThread \<times> program \<Rightarrow> fault + (NetworkThread \<times> program)" where
  "step (Accept fd address) (nt, pr) = Inr (CreateSocket fd address nt pr)"
| "step (CloseOp p) (nt, pr) = Close_at p nt pr"
| "step (ReadOp p len) (nt, pr) =
     (case Read_at p len pr of Inl e \<Rightarrow> Inl e | Inr pr' \<Rightarrow> Inr (nt, pr'))"
| "step (WriteOp p data) (nt, pr) =
     (case Write_at p data pr of Inl e \<Rightarrow> Inl e | Inr pr' \<Rightarrow> Inr (nt, pr'))"
| "step (ReadSkipOp p len) (nt, pr) =
     (case ReadSkip_at p len pr of Inl e \<Rightarrow> Inl e | Inr pr' \<Rightarrow> Inr (nt, pr'))"
| "step CleanupTurn (nt, pr) =
     (if \<not> m_pendingShutdown nt \<or> m_closingSockets nt \<noteq> []
      then SocketCleanupWork_body nt pr else Inr (nt, pr))"

fun run :: "action list \<Rightarrow> NetworkThread \<times> program \<Rightarrow> fault + (NetworkThread \<times> program)" where
  "run [] st = Inr st"
| "run (x # xs) st = (case step x st of Inl e \<Rightarrow> Inl e | Inr st' \<Rightarrow> run xs st')"

text \<open>The worker as its constructor leaves it, in a program with no socket yet.\<close>

definition NetworkThread_new :: NetworkThread where
  "NetworkThread_new =
     \<lparr>m_sockets = [], m_closingSockets = [], m_pendingShutdown = False, lock_log = []\<rparr>"

definition program_start :: program where
  "program_start =
     \<lparr>heap = Map.empty, next_sock = 0,
      the_world = \<lparr>bevs = Map.empty, next_bev = 0, calls = [], errno = 0, sLog = []\<rparr>\<rparr>"

text \<open>
  The ownership invariant of a worker: no socket is in a list twice or in both lists, the
  sockets in the lists are exactly those that exist, and every socket that exists was
  allocated (its address is below the next one to be handed out).
\<close>

definition owned_once :: "NetworkThread \<Rightarrow> program \<Rightarrow> bool" where
  "owned_once nt pr \<longleftrightarrow>
     distinct (m_sockets nt @ m_closingSockets nt)
     \<and> (\<forall>p. (p \<in> set (m_sockets nt) \<or> p \<in> set (m_closingSockets nt)) = (heap pr p \<noteq> None))
     \<and> (\<forall>p. heap pr p \<noteq> None \<longrightarrow> p < next_sock pr)"

definition closing_closed :: "NetworkThread \<Rightarrow> program \<Rightarrow> bool" where
  "closing_closed nt pr \<longleftrightarrow>
     (\<forall>p \<in> set (m_closingSockets nt). \<exists>s. heap pr p = Some s \<and> IsClosed s)"

text \<open>
  Every handle held by a socket is a stream that exists, no two sockets hold the same
  handle, and every stream that exists was allocated.
\<close>

definition streams_valid :: "program \<Rightarrow> bool" where
  "streams_valid pr \<longleftrightarrow>
     (\<forall>p s b. heap pr p = Some s \<longrightarrow> m_bev s = Some b \<longrightarrow> bevs (the_world pr) b \<noteq> None)
     \<and> (\<forall>p q s t b. heap pr p = Some s \<longrightarrow> heap pr q = Some t \<longrightarrow> m_bev s = Some b
            \<longrightarrow> m_bev t = Some b \<longrightarrow> p = q)
     \<and> (\<forall>b. bevs (the_world pr) b \<noteq> None \<longrightarrow> b < next_bev (the_world pr))"

definition closed_in :: "program \<Rightarrow> sockptr \<Rightarrow> bool" where
  "closed_in pr p = (case heap pr p of None \<Rightarrow> False | Some s \<Rightarrow> IsClosed s)"

definition worker_inv :: "NetworkThread \<times> program \<Rightarrow> bool" where
  "worker_inv st \<longleftrightarrow>
     owned_once (fst st) (snd st) \<and> closing_closed (fst st) (snd st) \<and> streams_valid (snd st)"

text \<open>
  Where a socket is: once for each time it stands in the live list, once for each time it
  stands in the closing list, and once when it does not exist.
\<close>

datatype place = Live | Closing | Destroyed

definition places :: "NetworkThread \<Rightarrow> program \<Rightarrow> sockptr \<Rightarrow> place list" where
  "places nt pr p =
     replicate (count_list (m_sockets nt) p) Live
     @ replicate (count_list (m_closingSockets nt) p) Closing
     @ (if heap pr p = None then [Destroyed] else [])"

section \<open>Listener\<close>

text \<open>
  \<open>SelectWorker\<close>: the loop over the workers from index 1, with the first worker as
  the initial minimum; the result is the index of the chosen worker. With no worker at
  all the first read is out of range.
\<close>

function SelectWorker_loop :: "NetworkThread list \<Rightarrow> nat \<Rightarrow> nat \<Rightarrow> nat \<Rightarrow> nat" where
  "SelectWorker_loop ws i minIndex minSize =
     (if i < length ws then
        (let sz = Size (ws ! i)
         in if sz < minSize then SelectWorker_loop ws (i + 1) i sz
            else SelectWorker_loop ws (i + 1) minIndex minSize)
      else minIndex)"
  by pat_completeness auto
termination
  by (relation "measure (\<lambda>(ws, i, minIndex, minSize). length ws - i)") auto

declare SelectWorker_loop.simps [simp del]

definition SelectWorker :: "NetworkThread list \<Rightarrow> fault + nat" where
  "SelectWorker ws =
     (if ws = [] then Inl OutOfRange else Inr (SelectWorker_loop ws 1 0 (Size (ws ! 0))))"

definition AcceptCallback ::
  "int \<Rightarrow> sockaddr_in \<Rightarrow> NetworkThread list \<times> program
     \<Rightarrow> fault + (NetworkThread list \<times> program)" where
  "AcceptCallback fd address st =
     (case SelectWorker (fst st) of
        Inl e \<Rightarrow> Inl e
      | Inr worker \<Rightarrow>
          (let (nt', pr') = CreateSocket fd address (fst st ! worker) (snd st)
           in Inr ((fst st)[worker := nt'], pr')))"

text \<open>Connections accepted one after the other, with nothing closed in between.\<close>

fun accepts ::
  "(int \<times> sockaddr_in) list \<Rightarrow> NetworkThread list \<times> program
     \<Rightarrow> fault + (NetworkThread list \<times> program)" where
  "accepts [] st = Inr st"
| "accepts (c # cs) st =
     (case AcceptCallback (fst c) (snd c) st of
        Inl e \<Rightarrow> Inl e
      | Inr st' \<Rightarrow> accepts cs st')"

text \<open>
  The worker with the smallest live list, the lowest index among those with that size;
  and the sizes of the live lists of \<open>N\<close> workers after \<open>K\<close> connections dealt
  out evenly, the first \<open>K mod N\<close> workers holding one more.
\<close>

definition least_loaded :: "NetworkThread list \<Rightarrow> nat \<Rightarrow> bool" where
  "least_loaded ws j \<longleftrightarrow>
     j < length ws \<and> (\<forall>k < length ws. Size (ws ! j) \<le> Size (ws ! k))
     \<and> (\<forall>k < j. Size (ws ! j) < Size (ws ! k))"

definition balanced :: "nat \<Rightarrow> nat \<Rightarrow> NetworkThread list \<Rightarrow> bool" where
  "balanced N K ws \<longleftrightarrow>
     length ws = N \<and> (\<forall>i < N. Size (ws ! i) = K div N + (if i < K mod N then 1 else 0))"

text \<open>
  The constructors. What the environment decides is a parameter: whether the n-th call
  of \<open>event_base_new\<close> returns a base, what \<open>inet_aton\<close> makes of the bind address,
  whether the listener can be bound, and the byte order of the host. The threads started
  are listed in the order in which they are started; a worker is known by its index.
\<close>

record environment =
  event_base_new_ok :: "nat \<Rightarrow> bool"
  inet_aton :: "string \<Rightarrow> (byte \<times> byte \<times> byte \<times> byte) option"
  listener_bind_ok :: bool
  host_order :: endian

datatype thread = CleanupThread nat | ServiceThread nat | AcceptorThread

datatype ctor_error = LengthError | NoEventBase | InvalidBindIP | NoListener

text \<open>
  \<open>NetworkThread::NetworkThread\<close>: the cleanup thread is started by the member
  initialiser, then the base is created, then the service thread is started.
\<close>

definition NetworkThread_ctor ::
  "environment \<Rightarrow> nat \<Rightarrow> thread list \<Rightarrow> (ctor_error + NetworkThread) \<times> thread list" where
  "NetworkThread_ctor env i ths =
     (let ths1 = ths @ [CleanupThread i]
      in if \<not> event_base_new_ok env i then (Inl NoEventBase, ths1)
         else (Inr NetworkThread_new, ths1 @ [ServiceThread i]))"

function make_workers ::
  "environment \<Rightarrow> nat \<Rightarrow> nat \<Rightarrow> NetworkThread list \<Rightarrow> thread list
     \<Rightarrow> (ctor_error + NetworkThread list) \<times> thread list" where
  "make_workers env workerThreads i ws ths =
     (if i < workerThreads then
        (case NetworkThread_ctor env i ths of
           (Inl e, ths') \<Rightarrow> (Inl e, ths')
         | (Inr nt, ths') \<Rightarrow> make_workers env workerThreads (i + 1) (ws @ [nt]) ths')
      else (Inr ws, ths))"
  by pat_completeness auto
termination
  by (relation "measure (\<lambda>(env, workerThreads, i, ws, ths). workerThreads - i)") auto

declare make_workers.simps [simp del]

record Listener =
  m_workerThreads :: "NetworkThread list"
  m_sin :: sockaddr_in

text \<open>
  \<open>Listener::Listener\<close>. A negative worker count makes \<open>reserve\<close> throw; the
  workers are built first, then the base of the listener is created, then the bind
  address is parsed, then the listener is bound and the acceptor thread is started.
\<close>

definition Listener_ctor ::
  "environment \<Rightarrow> string \<Rightarrow> int \<Rightarrow> int \<Rightarrow> (ctor_error + Listener) \<times> thread list" where
  "Listener_ctor env bind_ip port workerThreads =
     (if workerThreads < 0 then (Inl LengthError, [])
      else
        (case make_workers env (nat workerThreads) 0 [] [] of
           (Inl e, ths) \<Rightarrow> (Inl e, ths)
         | (Inr ws, ths) \<Rightarrow>
             if \<not> event_base_new_ok env (length ws) then (Inl NoEventBase, ths)
             else
               (case inet_aton env bind_ip of
                  None \<Rightarrow> (Inl InvalidBindIP, ths)
                | Some ad \<Rightarrow>
                    if \<not> listener_bind_ok env then (Inl NoListener, ths)
                    else (Inr \<lparr>m_workerThreads = ws,
                               m_sin = \<lparr>sin_port = htons (host_order env) (word_of_int port),
                                        sin_addr = ad\<rparr>\<rparr>,
                          ths @ [AcceptorThread]))))"

text \<open>
  Modelled from the spec: libc's \<open>inet_aton\<close> is not under src/; this is its reading of
  an IPv4 literal in the four-part decimal form "a.b.c.d", which it accepts when each
  part is a decimal number of at most 255.
\<close>

fun split_dots :: "string \<Rightarrow> string list" where
  "split_dots [] = [[]]"
| "split_dots (c # cs) =
     (if c = CHR ''.'' then [] # split_dots cs
      else (case split_dots cs of [] \<Rightarrow> [[c]] | part # parts \<Rightarrow> (c # part) # parts))"

definition digit_of :: "char \<Rightarrow> nat option" where
  "digit_of c =
     map_of [(CHR ''0'', 0), (CHR ''1'', 1), (CHR ''2'', 2), (CHR ''3'', 3), (CHR ''4'', 4),
             (CHR ''5'', 5), (CHR ''6'', 6), (CHR ''7'', 7), (CHR ''8'', 8), (CHR ''9'', 9)] c"

fun decimal :: "nat \<Rightarrow> string \<Rightarrow> nat option" where
  "decimal acc [] = Some acc"
| "decimal acc (c # cs) =
     (case digit_of c of None \<Rightarrow> None | Some d \<Rightarrow> decimal (10 * acc + d) cs)"

definition decimal_part :: "string \<Rightarrow> nat option" where
  "decimal_part part = (if part = [] then None else decimal 0 part)"

definition inet_aton_quad :: "string \<Rightarrow> (byte \<times> byte \<times> byte \<times> byte) option" where
  "inet_aton_quad cp =
     (case map decimal_part (split_dots cp) of
        [Some a, Some b, Some c, Some d] \<Rightarrow>
          if a \<le> 255 \<and> b \<le> 255 \<and> c \<le> 255 \<and> d \<le> 255
          then Some (of_nat a, of_nat b, of_nat c, of_nat d) else None
      | _ \<Rightarrow> None)"

section \<open>Example inputs\<close>

definition live_socket :: Socket where
  "live_socket = \<lparr>m_bev = Some 0, m_closeHandler = Some RemoveSocket_lambda,
                   m_address = ''10.0.0.1'', m_remoteEndpoint = ''10.0.0.1:4242''\<rparr>"

definition live_world :: world where
  "live_world = \<lparr>bevs = [0 \<mapsto> \<lparr>ev_input = [1, 2, 3], ev_output = []\<rparr>], next_bev = 1,
                  calls = [], errno = 0, sLog = []\<rparr>"

definition closed_world :: world where
  "closed_world = \<lparr>bevs = [0 \<mapsto> \<lparr>ev_input = [1, 2, 3], ev_output = []\<rparr>](0 := None),
                    next_bev = 1,
                    calls = [Bev_lock (Some 0), Bev_disable 0, Bev_setcb 0 False, Bev_unlock None,
                             Bev_free 0, CloseHandler 7],
                    errno = 0, sLog = []\<rparr>"

text \<open>A protocol handler that finds a partial frame: it returns false with \<open>errno\<close> set.\<close>

definition partial_frame_handler ::
  "Socket \<times> world \<times> unit \<Rightarrow> fault + (bool \<times> Socket \<times> world \<times> unit)" where
  "partial_frame_handler st =
     Inr (False, fst st, (fst (snd st))\<lparr>errno := EBADMSG\<rparr>, snd (snd st))"

text \<open>Two connections are accepted and the first is closed.\<close>

definition peer1 :: sockaddr_in where
  "peer1 = accepted_sockaddr LittleEndian (10, 0, 0, 1) 80"

definition two_accepts_one_close :: "action list" where
  "two_accepts_one_close = [Accept 5 peer1, Accept 6 peer1, CloseOp 0]"

text \<open>A host on which every base and the listener can be created.\<close>

definition good_host :: environment where
  "good_host = \<lparr>event_base_new_ok = (\<lambda>n. True), inet_aton = inet_aton_quad,
                 listener_bind_ok = True, host_order = LittleEndian\<rparr>"

section \<open>Properties of Socket\<close>

subsection \<open>Close\<close>

lemma Close_closed: "m_bev s = None \<Longrightarrow> Close invoke this s w a = Inr (s, w, a)"
  by (simp add: Close_def)

lemma Close_detaches: "Close invoke this s w a = Inr (s', w', a') \<Longrightarrow> m_bev s' = None"
  by (auto simp: Close_def Let_def split: option.splits)

lemma Close_live:
  assumes "m_bev s = Some b" and "bevs w b = Some be"
  shows "Close invoke this s w a =
           Inr (s\<lparr>m_bev := None\<rparr>,
                (w\<lparr>bevs := (bevs w)(b := None),
                    calls := calls w @ [Bev_lock (Some b), Bev_disable b, Bev_setcb b False,
                                        Bev_unlock None, Bev_free b]
                             @ (case m_closeHandler s of None \<Rightarrow> [] | Some h \<Rightarrow> [CloseHandler this])\<rparr>),
                (case m_closeHandler s of None \<Rightarrow> a | Some h \<Rightarrow> invoke h this a))"
  using assms
  by (simp add: Close_def Let_def record_call_def bufferevent_free_def split: option.split)

lemma Close_times_closed:
  "m_bev s = None \<Longrightarrow> Close_times invoke this n s w a = Inr (s, w, a)"
  by (induction n) (simp_all add: Close_closed)

lemma Close_live_socket:
  "Close invoke 7 live_socket live_world a =
     Inr (live_socket\<lparr>m_bev := None\<rparr>, closed_world, invoke RemoveSocket_lambda 7 a)"
  by (simp add: Close_def live_socket_def live_world_def closed_world_def record_call_def
      bufferevent_free_def)

text \<open>
  C1: Close is idempotent. On a live socket with a close handler, any number \<open>N \<ge> 1\<close> of
  calls of Close has the effect of the first call alone: the handle goes from valid to
  null once, the stream is freed once and the close handler is invoked once (the calls
  recorded are exactly those of one Close, and the owner's state is that of one
  invocation); Close on the result changes nothing.
\<close>

theorem close_idempotent:
  assumes "m_bev s = Some b" and "bevs w b = Some be" and "m_closeHandler s = Some h"
    and "1 \<le> N"
  shows "\<exists>s' w' a'. Close_times invoke this N s w a = Inr (s', w', a')
           \<and> Close invoke this s w a = Inr (s', w', a')
           \<and> Close invoke this s' w' a' = Inr (s', w', a')
           \<and> m_bev s' = None
           \<and> calls w' = calls w @ [Bev_lock (Some b), Bev_disable b, Bev_setcb b False,
                                    Bev_unlock None, Bev_free b, CloseHandler this]
           \<and> count_list (calls w') (Bev_free b) = count_list (calls w) (Bev_free b) + 1
           \<and> count_list (calls w') (CloseHandler this)
               = count_list (calls w) (CloseHandler this) + 1
           \<and> a' = invoke h this a"
proof -
  obtain n where N: "N = Suc n" using assms(4) by (cases N) auto
  show ?thesis
    unfolding N using assms(1-3)
    by (simp add: Close_live Close_times_closed Close_closed)
qed

theorem close_idempotent_witness:
  "\<exists>s' w' a'. Close_times (\<lambda>h p n. Suc n) 7 3 live_socket live_world (0::nat) = Inr (s', w', a')
     \<and> m_bev s' = None
     \<and> count_list (calls w') (Bev_free 0) = 1
     \<and> count_list (calls w') (CloseHandler 7) = 1
     \<and> a' = 1"
  using close_idempotent [of live_socket 0 live_world "\<lparr>ev_input = [1, 2, 3], ev_output = []\<rparr>"
      RemoveSocket_lambda 3 "\<lambda>h p n. Suc n" 7 "0::nat"]
  by (auto simp: live_socket_def live_world_def)

text \<open>
  C3, as the code has it: Close takes the stream's lock with the handle, then sets the
  field \<open>m_bev\<close> to null and calls \<open>bufferevent_unlock\<close> with that field, that is
  with null, before it frees the stream through the local copy of the handle. The lock
  taken on the stream is never released with the stream's handle.
\<close>

theorem close_unlocks_null:
  "\<exists>s' w' a'. Close (\<lambda>h p a. a) 7 live_socket live_world () = Inr (s', w', a')
     \<and> calls w' = [Bev_lock (Some 0), Bev_disable 0, Bev_setcb 0 False, Bev_unlock None,
                   Bev_free 0, CloseHandler 7]
     \<and> Bev_unlock (Some 0) \<notin> set (calls w')"
  by (simp add: Close_def live_socket_def live_world_def record_call_def bufferevent_free_def)

subsection \<open>After Close\<close>

text \<open>
  C2: once Close has returned, every operation on the socket returns the value of a
  detached socket, in any later world and without touching a stream: Read returns false
  and stores nothing, Write and ReadSkip leave the world as it is, InPeek returns null,
  ReadLengthRemaining returns 0 and IsClosed returns true.
\<close>

theorem post_detach:
  assumes "Close invoke this s w a = Inr (s', w', a')"
  shows "Read s' n w'' = Inr ((False, []), w'')
       \<and> Write s' data w'' = Inr w''
       \<and> ReadSkip s' k w'' = Inr w''
       \<and> InPeek s' w'' = Inr None
       \<and> ReadLengthRemaining s' w'' = Inr 0
       \<and> IsClosed s'"
  using Close_detaches [OF assms]
  by (simp add: Read_def Write_def ReadSkip_def InPeek_def ReadLengthRemaining_def IsClosed_def)

theorem post_detach_witness:
  "Read (live_socket\<lparr>m_bev := None\<rparr>) 2 closed_world = Inr ((False, []), closed_world)
     \<and> Write (live_socket\<lparr>m_bev := None\<rparr>) [9, 9] closed_world = Inr closed_world
     \<and> ReadSkip (live_socket\<lparr>m_bev := None\<rparr>) 2 closed_world = Inr closed_world
     \<and> InPeek (live_socket\<lparr>m_bev := None\<rparr>) closed_world = Inr None
     \<and> ReadLengthRemaining (live_socket\<lparr>m_bev := None\<rparr>) closed_world = Inr 0
     \<and> IsClosed (live_socket\<lparr>m_bev := None\<rparr>)"
  by (rule post_detach [OF Close_live_socket [of "\<lambda>h p a. a" "()"]])

subsection \<open>Read\<close>

lemma size_t_of_int_nonneg: "0 \<le> sint n \<Longrightarrow> size_t_of_int n = nat (sint n)"
proof -
  assume a: "0 \<le> sint n"
  have "sint n < 2 ^ 31" using sint_lt [of n] by simp
  then have "sint n < 2 ^ 64" by simp
  with a show ?thesis by (simp add: size_t_of_int_def)
qed

lemma int_of_size_t_sint: "0 \<le> sint (n::32 word) \<Longrightarrow> int_of_size_t (nat (sint n)) = sint n"
proof -
  assume a: "0 \<le> sint n"
  have "sint n < 2 ^ 31" using sint_lt [of n] by simp
  with a show ?thesis
    by (simp add: int_of_size_t_def signed_take_bit_int_eq_self)
qed

text \<open>
  C6: on a live socket, Read of a length \<open>n \<ge> 0\<close> returns true, stores the first
  \<open>n\<close> bytes of the inbound buffer and removes exactly them when the buffer holds at
  least \<open>n\<close> bytes; otherwise it returns false, stores nothing and leaves the world,
  the inbound buffer with it, unchanged.
\<close>

theorem Read_live:
  assumes "m_bev s = Some b" and "bevs w b = Some be" and "0 \<le> sint len"
  shows "Read s len w =
           (if nat (sint len) \<le> length (ev_input be)
            then Inr ((True, take (nat (sint len)) (ev_input be)),
                      w\<lparr>bevs := (bevs w)(b \<mapsto> be\<lparr>ev_input := drop (nat (sint len)) (ev_input be)\<rparr>)\<rparr>)
            else Inr ((False, []), w))"
  using assms
  by (simp add: Read_def bufferevent_read_def size_t_of_int_nonneg int_of_size_t_sint min_def)

theorem Read_live_witness:
  "Read live_socket 2 live_world =
     Inr ((True, [1, 2]), live_world\<lparr>bevs := [0 \<mapsto> \<lparr>ev_input = [3], ev_output = []\<rparr>]\<rparr>)
   \<and> Read live_socket 4 live_world = Inr ((False, []), live_world)"
  using Read_live [of live_socket 0 live_world "\<lparr>ev_input = [1, 2, 3], ev_output = []\<rparr>" 2]
    Read_live [of live_socket 0 live_world "\<lparr>ev_input = [1, 2, 3], ev_output = []\<rparr>" 4]
  by (simp add: live_socket_def live_world_def)

text \<open>
  A negative length is converted to a huge \<open>size_t\<close> in the comparison with the
  buffer's length: Read returns false and consumes nothing.
\<close>

lemma Read_negative:
  assumes "m_bev s = Some b" and "bevs w b = Some be" and "sint len < 0"
    and "length (ev_input be) < 2 ^ 63"
  shows "Read s len w = Inr ((False, []), w)"
proof -
  have lo: "- (2 ^ 31) \<le> sint len" using sint_ge [of len] by simp
  have "(sint len + 2 ^ 64) mod 2 ^ 64 = sint len + 2 ^ 64"
    using lo assms(3) by (intro mod_pos_pos_trivial) simp_all
  then have "sint len mod 2 ^ 64 = sint len + 2 ^ 64" by simp
  then have "size_t_of_int len \<ge> 2 ^ 63" using lo
    by (simp add: size_t_of_int_def)
  then show ?thesis using assms by (simp add: Read_def)
qed

subsection \<open>The read-ready callback\<close>

text \<open>
  C7: the read-ready callback calls the protocol handler while ReadLengthRemaining is
  positive (and returns at once when it is not). When the handler returns true the loop
  goes on from the state the handler left. When the handler returns false the callback
  returns: the socket and the rest of the program are as the handler left them, and so
  are the streams with their buffers and the recorded library calls (no Close, no free);
  the only change is one line appended to the log when \<open>errno\<close> is \<open>EBADMSG\<close>, and
  none otherwise.
\<close>

theorem ReadCallback_exit:
  assumes "ReadLengthRemaining s w = Inr n"
  shows "(n \<le> 0 \<longrightarrow> ReadCallback pid (s, w, a) = Some (Inr (s, w, a)))
       \<and> (0 < n \<longrightarrow>
            (\<forall>s' w' a'. pid (s, w, a) = Inr (True, s', w', a')
               \<longrightarrow> ReadCallback pid (s, w, a) = ReadCallback pid (s', w', a'))
          \<and> (\<forall>s' w' a'. pid (s, w, a) = Inr (False, s', w', a')
               \<longrightarrow> (\<exists>wf. ReadCallback pid (s, w, a) = Some (Inr (s', wf, a'))
                      \<and> bevs wf = bevs w' \<and> calls wf = calls w' \<and> errno wf = errno w'
                      \<and> next_bev wf = next_bev w'
                      \<and> sLog wf = (if errno w' = EBADMSG
                                   then sLog w' @ [''Socket::ReadCallback incomplete read!!!'']
                                   else sLog w'))))"
  using assms
  by (subst ReadCallback.simps, subst (2) ReadCallback.simps, subst (3) ReadCallback.simps) auto

theorem ReadCallback_exit_witness:
  "\<exists>wf. ReadCallback partial_frame_handler (live_socket, live_world, ())
            = Some (Inr (live_socket, wf, ()))
     \<and> bevs wf = bevs live_world \<and> calls wf = []
     \<and> sLog wf = [''Socket::ReadCallback incomplete read!!!'']"
proof -
  have rl: "ReadLengthRemaining live_socket live_world = Inr 3"
    by (simp add: ReadLengthRemaining_def int_of_size_t_def live_socket_def live_world_def)
  have pf: "partial_frame_handler (live_socket, live_world, ())
              = Inr (False, live_socket, live_world\<lparr>errno := EBADMSG\<rparr>, ())"
    by (simp add: partial_frame_handler_def)
  have pos: "(0::int) < 3" by simp
  note ex = ReadCallback_exit [OF rl, of partial_frame_handler "()",
      THEN conjunct2, rule_format, OF pos, THEN conjunct2, rule_format, OF pf]
  from ex obtain wf where
    a: "ReadCallback partial_frame_handler (live_socket, live_world, ())
       = Some (Inr (live_socket, wf, ()))"
    and b: "bevs wf = bevs (live_world\<lparr>errno := EBADMSG\<rparr>)"
    and c: "calls wf = calls (live_world\<lparr>errno := EBADMSG\<rparr>)"
    and d: "sLog wf = (if errno (live_world\<lparr>errno := EBADMSG\<rparr>) = EBADMSG
                        then sLog (live_world\<lparr>errno := EBADMSG\<rparr>)
                               @ [''Socket::ReadCallback incomplete read!!!'']
                        else sLog (live_world\<lparr>errno := EBADMSG\<rparr>))"
    by (elim exE conjE)
  have "bevs wf = bevs live_world" using b by simp
  moreover have "calls wf = []" using c by (simp add: live_world_def)
  moreover have "sLog wf = [''Socket::ReadCallback incomplete read!!!'']"
    using d by (simp add: live_world_def)
  ultimately show ?thesis using a by (intro exI [of _ wf] conjI)
qed

subsection \<open>The constructor\<close>

lemma htons_80: "htons LittleEndian 80 = 20480"
  by (simp add: htons_def)

lemma to_string_20480: "to_string 20480 = ''20480''"
  by (simp add: to_string.simps)

lemma inet_ntop_10_0_0_1: "inet_ntop (10, 0, 0, 1) = ''10.0.0.1''"
  by (simp add: inet_ntop_def to_string.simps)

text \<open>The address text is the dotted decimal form of the four address bytes.\<close>

lemma Socket_ctor_address:
  "GetRemoteAddress (fst (Socket_ctor fd (accepted_sockaddr e (a, b, c, d) p) h w))
     = to_string (unat a) @ ''.'' @ to_string (unat b) @ ''.'' @ to_string (unat c) @ ''.''
         @ to_string (unat d)"
  by (simp add: GetRemoteAddress_def Socket_ctor_def accepted_sockaddr_def
      bufferevent_socket_new_def Let_def inet_ntop_def)

text \<open>On a big-endian host the port field is the port, and the endpoint text shows it.\<close>

lemma Socket_ctor_endpoint_big_endian:
  "GetRemoteEndpoint (fst (Socket_ctor fd (accepted_sockaddr BigEndian ad p) h w))
     = inet_ntop ad @ '':'' @ to_string (unat p)"
  by (simp add: GetRemoteEndpoint_def Socket_ctor_def accepted_sockaddr_def
      bufferevent_socket_new_def Let_def htons_def)

text \<open>Close, the only operation that changes a socket, keeps both texts.\<close>

lemma Close_keeps_texts:
  assumes "Close invoke this s w a = Inr (s', w', a')"
  shows "GetRemoteEndpoint s' = GetRemoteEndpoint s \<and> GetRemoteAddress s' = GetRemoteAddress s"
proof (cases "m_bev s")
  case None
  then show ?thesis using assms by (simp add: Close_closed)
next
  case (Some b)
  show ?thesis
  proof (cases "bevs w b")
    case None
    then show ?thesis using assms Some by (simp add: Close_def)
  next
    case (Some be)
    then show ?thesis
      using assms \<open>m_bev s = Some b\<close>
      by (auto simp: Close_live GetRemoteEndpoint_def GetRemoteAddress_def)
  qed
qed

text \<open>
  C8, as the code has it: the constructor prints the field \<open>sin_port\<close> as the host
  reads it, without converting it from network byte order. On a little-endian host a
  connection from 10.0.0.1, port 80 gets the endpoint text "10.0.0.1:20480"; the address
  text is "10.0.0.1".
\<close>

theorem endpoint_port_byte_order:
  "GetRemoteEndpoint (fst (Socket_ctor fd (accepted_sockaddr LittleEndian (10, 0, 0, 1) 80) h w))
     = ''10.0.0.1:20480''
   \<and> GetRemoteEndpoint (fst (Socket_ctor fd (accepted_sockaddr LittleEndian (10, 0, 0, 1) 80) h w))
     \<noteq> ''10.0.0.1:80''
   \<and> GetRemoteAddress (fst (Socket_ctor fd (accepted_sockaddr LittleEndian (10, 0, 0, 1) 80) h w))
     = ''10.0.0.1''"
  by (simp add: GetRemoteEndpoint_def GetRemoteAddress_def Socket_ctor_def accepted_sockaddr_def
      bufferevent_socket_new_def Let_def htons_80 to_string_20480 inet_ntop_10_0_0_1)

section \<open>Properties of NetworkThread\<close>

lemma RemoveSocket_sockets:
  "m_sockets (RemoveSocket p nt) = remove1 p (m_sockets nt)"
  by (simp add: RemoveSocket_def Let_def remove1_idem)

lemma RemoveSocket_closing:
  "m_closingSockets (RemoveSocket p nt)
     = (if p \<in> set (m_sockets nt) then p # m_closingSockets nt else m_closingSockets nt)"
  by (simp add: RemoveSocket_def Let_def)

lemma RemoveSocket_shutdown:
  "m_pendingShutdown (RemoveSocket p nt) = m_pendingShutdown nt"
  by (simp add: RemoveSocket_def Let_def)

lemma Close_at_effect:
  assumes "Close_at p nt pr = Inr (nt', pr')"
  shows "\<exists>s. heap pr p = Some s
           \<and> heap pr' = (heap pr)(p \<mapsto> s\<lparr>m_bev := None\<rparr>)
           \<and> next_sock pr' = next_sock pr
           \<and> next_bev (the_world pr') = next_bev (the_world pr)
           \<and> bevs (the_world pr')
               = (case m_bev s of None \<Rightarrow> bevs (the_world pr)
                  | Some b \<Rightarrow> (bevs (the_world pr))(b := None))
           \<and> (case m_bev s of None \<Rightarrow> True | Some b \<Rightarrow> bevs (the_world pr) b \<noteq> None)
           \<and> nt' = (if m_bev s = None then nt
                    else case m_closeHandler s of None \<Rightarrow> nt | Some h \<Rightarrow> RemoveSocket p nt)"
proof -
  obtain s where s: "heap pr p = Some s"
    using assms by (auto simp: Close_at_def split: option.splits)
  show ?thesis
  proof (cases "m_bev s")
    case None
    then have "s\<lparr>m_bev := None\<rparr> = s" by simp
    then show ?thesis using assms s None
      by (auto simp: Close_at_def Close_closed)
  next
    case (Some b)
    then obtain be where be: "bevs (the_world pr) b = Some be"
      using assms s by (auto simp: Close_at_def Close_def split: option.splits)
    show ?thesis
      using assms s Some be
      by (cases "m_closeHandler s")
         (auto simp: Close_at_def Close_live run_closure_def split: closure.splits)
  qed
qed


lemma cleanup_walk_effect:
  assumes "distinct ps" and "\<forall>p \<in> set ps. heap pr p \<noteq> None"
  shows "cleanup_walk ps pr =
           Inr (filter (\<lambda>p. \<not> closed_in pr p) ps,
                pr\<lparr>heap := (\<lambda>q. if q \<in> set ps \<and> closed_in pr q then None else heap pr q)\<rparr>)"
  using assms
proof (induction ps arbitrary: pr)
  case Nil
  then show ?case by simp
next
  case (Cons p ps)
  then obtain s where s: "heap pr p = Some s" by auto
  show ?case
  proof (cases "IsClosed s")
    case True
    let ?pr1 = "pr\<lparr>heap := (heap pr)(p := None)\<rparr>"
    have d: "distinct ps" and notin: "p \<notin> set ps" using Cons.prems by auto
    have h: "\<forall>q \<in> set ps. heap ?pr1 q \<noteq> None" using Cons.prems notin by auto
    have same: "\<And>q. q \<noteq> p \<Longrightarrow> closed_in ?pr1 q = closed_in pr q"
      by (simp add: closed_in_def)
    have f: "filter (\<lambda>q. \<not> closed_in ?pr1 q) ps = filter (\<lambda>q. \<not> closed_in pr q) ps"
      using notin by (intro filter_cong) (auto simp: closed_in_def)
    have cp: "closed_in pr p" using s True by (simp add: closed_in_def)
    have hp: "(\<lambda>q. if q \<in> set ps \<and> closed_in ?pr1 q then None else heap ?pr1 q)
              = (\<lambda>q. if q \<in> set (p # ps) \<and> closed_in pr q then None else heap pr q)"
      using cp notin by (auto simp: fun_eq_iff closed_in_def)
    show ?thesis
      using Cons.IH [OF d h] s True cp f hp
      by (simp add: Socket_dtor_def)
  next
    case False
    have d: "distinct ps" and notin: "p \<notin> set ps" using Cons.prems by auto
    have h: "\<forall>q \<in> set ps. heap pr q \<noteq> None" using Cons.prems by auto
    have cp: "\<not> closed_in pr p" using s False by (simp add: closed_in_def)
    have hp: "(\<lambda>q. if q \<in> set ps \<and> closed_in pr q then None else heap pr q)
              = (\<lambda>q. if q \<in> set (p # ps) \<and> closed_in pr q then None else heap pr q)"
      using cp by (auto simp: fun_eq_iff)
    show ?thesis
      using Cons.IH [OF d h] s False cp hp by simp
  qed
qed


lemma CreateSocket_effect:
  assumes "CreateSocket fd address nt pr = (nt', pr')"
  shows "m_sockets nt' = next_sock pr # m_sockets nt
       \<and> m_closingSockets nt' = m_closingSockets nt
       \<and> m_pendingShutdown nt' = m_pendingShutdown nt
       \<and> next_sock pr' = Suc (next_sock pr)
       \<and> next_bev (the_world pr') = Suc (next_bev (the_world pr))
       \<and> bevs (the_world pr')
           = (bevs (the_world pr))(next_bev (the_world pr) \<mapsto> \<lparr>ev_input = [], ev_output = []\<rparr>)
       \<and> (\<exists>s. heap pr' = (heap pr)(next_sock pr \<mapsto> s)
               \<and> m_bev s = Some (next_bev (the_world pr))
               \<and> m_closeHandler s = Some RemoveSocket_lambda)"
  using assms
  by (auto simp: CreateSocket_def Socket_ctor_def bufferevent_socket_new_def record_call_def
      Let_def)

lemma Read_world:
  assumes "Read s len w = Inr (r, w')"
  shows "next_bev w' = next_bev w \<and> (\<forall>b. (bevs w' b \<noteq> None) = (bevs w b \<noteq> None))"
  using assms
  by (auto simp: Read_def bufferevent_read_def Let_def split: option.splits if_splits)

lemma Write_world:
  assumes "Write s data w = Inr w'"
  shows "next_bev w' = next_bev w \<and> (\<forall>b. (bevs w' b \<noteq> None) = (bevs w b \<noteq> None))"
  using assms
  by (auto simp: Write_def bufferevent_write_def split: option.splits if_splits)

lemma ReadSkip_world:
  assumes "ReadSkip s len w = Inr w'"
  shows "next_bev w' = next_bev w \<and> (\<forall>b. (bevs w' b \<noteq> None) = (bevs w b \<noteq> None))"
  using assms
  by (auto simp: ReadSkip_def evbuffer_drain_def split: option.splits if_splits)

lemma Read_at_effect:
  assumes "Read_at p len pr = Inr pr'"
  shows "heap pr' = heap pr \<and> next_sock pr' = next_sock pr
       \<and> next_bev (the_world pr') = next_bev (the_world pr)
       \<and> (\<forall>b. (bevs (the_world pr') b \<noteq> None) = (bevs (the_world pr) b \<noteq> None))"
proof -
  obtain s r w' where "Read s len (the_world pr) = Inr (r, w')" and "pr' = pr\<lparr>the_world := w'\<rparr>"
    using assms by (auto simp: Read_at_def split: option.splits sum.splits)
  then show ?thesis using Read_world [of s len "the_world pr" r w'] by simp
qed

lemma Write_at_effect:
  assumes "Write_at p data pr = Inr pr'"
  shows "heap pr' = heap pr \<and> next_sock pr' = next_sock pr
       \<and> next_bev (the_world pr') = next_bev (the_world pr)
       \<and> (\<forall>b. (bevs (the_world pr') b \<noteq> None) = (bevs (the_world pr) b \<noteq> None))"
proof -
  obtain s w' where "Write s data (the_world pr) = Inr w'" and "pr' = pr\<lparr>the_world := w'\<rparr>"
    using assms by (auto simp: Write_at_def split: option.splits sum.splits)
  then show ?thesis using Write_world [of s data "the_world pr" w'] by simp
qed

lemma ReadSkip_at_effect:
  assumes "ReadSkip_at p len pr = Inr pr'"
  shows "heap pr' = heap pr \<and> next_sock pr' = next_sock pr
       \<and> next_bev (the_world pr') = next_bev (the_world pr)
       \<and> (\<forall>b. (bevs (the_world pr') b \<noteq> None) = (bevs (the_world pr) b \<noteq> None))"
proof -
  obtain s w' where "ReadSkip s len (the_world pr) = Inr w'" and "pr' = pr\<lparr>the_world := w'\<rparr>"
    using assms by (auto simp: ReadSkip_at_def split: option.splits sum.splits)
  then show ?thesis using ReadSkip_world [of s len "the_world pr" w'] by simp
qed

text \<open>A step that only changes the buffers keeps all three invariants.\<close>

lemma buffers_only_inv:
  assumes "heap pr' = heap pr" and "next_sock pr' = next_sock pr"
    and "next_bev (the_world pr') = next_bev (the_world pr)"
    and "\<forall>b. (bevs (the_world pr') b \<noteq> None) = (bevs (the_world pr) b \<noteq> None)"
    and "owned_once nt pr" and "closing_closed nt pr" and "streams_valid pr"
  shows "owned_once nt pr' \<and> closing_closed nt pr' \<and> streams_valid pr'"
  using assms unfolding owned_once_def closing_closed_def streams_valid_def
  by simp

lemma CreateSocket_inv:
  assumes "CreateSocket fd address nt pr = (nt', pr')"
    and "owned_once nt pr" and "closing_closed nt pr" and "streams_valid pr"
  shows "owned_once nt' pr' \<and> closing_closed nt' pr' \<and> streams_valid pr'"
proof -
  from CreateSocket_effect [OF assms(1)] obtain s where
    e: "m_sockets nt' = next_sock pr # m_sockets nt"
       "m_closingSockets nt' = m_closingSockets nt"
       "next_sock pr' = Suc (next_sock pr)"
       "next_bev (the_world pr') = Suc (next_bev (the_world pr))"
       "bevs (the_world pr')
           = (bevs (the_world pr))(next_bev (the_world pr) \<mapsto> \<lparr>ev_input = [], ev_output = []\<rparr>)"
       "heap pr' = (heap pr)(next_sock pr \<mapsto> s)"
       "m_bev s = Some (next_bev (the_world pr))"
    by auto
  have fresh: "heap pr (next_sock pr) = None"
    using assms(2) unfolding owned_once_def by (metis less_irrefl)
  have fresh_lists: "next_sock pr \<notin> set (m_sockets nt)" "next_sock pr \<notin> set (m_closingSockets nt)"
    using assms(2) fresh unfolding owned_once_def by auto
  have o: "owned_once nt' pr'"
    using assms(2) fresh_lists unfolding owned_once_def by (auto simp: e less_Suc_eq)
  have c: "closing_closed nt' pr'"
    using assms(3) fresh_lists unfolding closing_closed_def by (auto simp: e)
  have bfresh: "bevs (the_world pr) (next_bev (the_world pr)) = None"
    using assms(4) unfolding streams_valid_def by (metis less_irrefl)
  have nouse: "\<And>q t. heap pr q = Some t \<Longrightarrow> m_bev t \<noteq> Some (next_bev (the_world pr))"
    using assms(4) bfresh unfolding streams_valid_def by metis
  have v: "streams_valid pr'"
    unfolding streams_valid_def
  proof (intro conjI allI impI)
    fix p t b assume "heap pr' p = Some t" "m_bev t = Some b"
    then show "bevs (the_world pr') b \<noteq> None"
      using assms(4) e(7) unfolding streams_valid_def
      by (auto simp: e(5,6) split: if_splits)
  next
    fix p q t u b
    assume "heap pr' p = Some t" "heap pr' q = Some u" "m_bev t = Some b" "m_bev u = Some b"
    then show "p = q"
      using assms(4) nouse e(7) unfolding streams_valid_def
      by (auto simp: e(6) split: if_splits)
  next
    fix b assume "bevs (the_world pr') b \<noteq> None"
    then show "b < next_bev (the_world pr')"
      using assms(4) unfolding streams_valid_def by (auto simp: e less_Suc_eq split: if_splits)
  qed
  show ?thesis using o c v by simp
qed


lemma RemoveSocket_lists:
  assumes "distinct (m_sockets nt @ m_closingSockets nt)"
  shows "distinct (m_sockets (RemoveSocket p nt) @ m_closingSockets (RemoveSocket p nt))
       \<and> set (m_sockets (RemoveSocket p nt)) \<union> set (m_closingSockets (RemoveSocket p nt))
           = set (m_sockets nt) \<union> set (m_closingSockets nt)
       \<and> set (m_closingSockets (RemoveSocket p nt)) \<subseteq> insert p (set (m_closingSockets nt))"
  using assms
  by (auto simp: RemoveSocket_sockets RemoveSocket_closing dest: notin_set_remove1)

lemma Close_at_inv:
  assumes "Close_at p nt pr = Inr (nt', pr')"
    and "owned_once nt pr" and "closing_closed nt pr" and "streams_valid pr"
  shows "owned_once nt' pr' \<and> closing_closed nt' pr' \<and> streams_valid pr'"
proof -
  from Close_at_effect [OF assms(1)] obtain s where
    s: "heap pr p = Some s"
    and h: "heap pr' = (heap pr)(p \<mapsto> s\<lparr>m_bev := None\<rparr>)"
    and n: "next_sock pr' = next_sock pr"
    and nb: "next_bev (the_world pr') = next_bev (the_world pr)"
    and b: "bevs (the_world pr')
               = (case m_bev s of None \<Rightarrow> bevs (the_world pr)
                  | Some b \<Rightarrow> (bevs (the_world pr))(b := None))"
    and nt': "nt' = (if m_bev s = None then nt
                    else case m_closeHandler s of None \<Rightarrow> nt | Some h \<Rightarrow> RemoveSocket p nt)"
    by blast
  have d: "distinct (m_sockets nt @ m_closingSockets nt)"
    using assms(2) unfolding owned_once_def by simp
  have cases_nt: "nt' = nt \<or> nt' = RemoveSocket p nt"
    using nt' by (auto split: option.splits)
  have lists: "distinct (m_sockets nt' @ m_closingSockets nt')
       \<and> set (m_sockets nt') \<union> set (m_closingSockets nt')
           = set (m_sockets nt) \<union> set (m_closingSockets nt)
       \<and> set (m_closingSockets nt') \<subseteq> insert p (set (m_closingSockets nt))"
    using cases_nt RemoveSocket_lists [OF d, of p] d by auto
  have dom_same: "\<And>q. (heap pr' q \<noteq> None) = (heap pr q \<noteq> None)"
    using s h by simp
  have o: "owned_once nt' pr'"
    unfolding owned_once_def
  proof (intro conjI allI impI)
    show "distinct (m_sockets nt' @ m_closingSockets nt')" using lists by simp
  next
    fix q
    have "(q \<in> set (m_sockets nt') \<or> q \<in> set (m_closingSockets nt'))
            = (q \<in> set (m_sockets nt) \<or> q \<in> set (m_closingSockets nt))"
      using lists by blast
    then show "(q \<in> set (m_sockets nt') \<or> q \<in> set (m_closingSockets nt')) = (heap pr' q \<noteq> None)"
      using assms(2) dom_same unfolding owned_once_def by simp
  next
    fix q assume "heap pr' q \<noteq> None"
    then show "q < next_sock pr'"
      using assms(2) dom_same n unfolding owned_once_def by simp
  qed
  have c: "closing_closed nt' pr'"
    unfolding closing_closed_def
  proof
    fix q assume q: "q \<in> set (m_closingSockets nt')"
    show "\<exists>t. heap pr' q = Some t \<and> IsClosed t"
    proof (cases "q = p")
      case True
      then show ?thesis using h by (simp add: IsClosed_def)
    next
      case False
      then have "q \<in> set (m_closingSockets nt)" using q lists by blast
      then show ?thesis using assms(3) False h unfolding closing_closed_def by simp
    qed
  qed
  have v: "streams_valid pr'"
    unfolding streams_valid_def
  proof (intro conjI allI impI)
    fix q t b' assume a: "heap pr' q = Some t" "m_bev t = Some b'"
    then have qp: "q \<noteq> p" using h by auto
    then have t: "heap pr q = Some t" using a h by simp
    have ex: "bevs (the_world pr) b' \<noteq> None"
      using assms(4) t a(2) unfolding streams_valid_def by blast
    have "m_bev s \<noteq> Some b'"
      using assms(4) s t a(2) qp unfolding streams_valid_def by blast
    then show "bevs (the_world pr') b' \<noteq> None"
      using ex b by (auto split: option.splits)
  next
    fix q r t u b'
    assume a: "heap pr' q = Some t" "heap pr' r = Some u" "m_bev t = Some b'" "m_bev u = Some b'"
    then have "q \<noteq> p" "r \<noteq> p" using h by auto
    then have "heap pr q = Some t" "heap pr r = Some u" using a h by simp_all
    then show "q = r" using assms(4) a(3,4) unfolding streams_valid_def by blast
  next
    fix b' assume "bevs (the_world pr') b' \<noteq> None"
    then have "bevs (the_world pr) b' \<noteq> None"
      using b by (auto split: option.splits if_splits)
    then show "b' < next_bev (the_world pr')"
      using assms(4) nb unfolding streams_valid_def by simp
  qed
  show ?thesis using o c v by simp
qed

lemma SocketCleanupWork_body_effect:
  assumes "owned_once nt pr"
  shows "SocketCleanupWork_body nt pr =
           Inr (nt\<lparr>m_closingSockets := filter (\<lambda>p. \<not> closed_in pr p) (m_closingSockets nt),
                   lock_log := lock_log nt @ [Acquire ClosingSocketLock, Release ClosingSocketLock]\<rparr>,
                pr\<lparr>heap := (\<lambda>q. if q \<in> set (m_closingSockets nt) \<and> closed_in pr q then None
                                else heap pr q)\<rparr>)"
proof -
  have "distinct (m_closingSockets nt)" and "\<forall>p \<in> set (m_closingSockets nt). heap pr p \<noteq> None"
    using assms unfolding owned_once_def by auto
  then show ?thesis
    by (simp add: SocketCleanupWork_body_def cleanup_walk_effect)
qed

lemma SocketCleanupWork_body_inv:
  assumes "SocketCleanupWork_body nt pr = Inr (nt', pr')"
    and "owned_once nt pr" and "closing_closed nt pr" and "streams_valid pr"
  shows "owned_once nt' pr' \<and> closing_closed nt' pr' \<and> streams_valid pr'"
proof -
  have nt': "m_sockets nt' = m_sockets nt"
       "m_closingSockets nt' = filter (\<lambda>p. \<not> closed_in pr p) (m_closingSockets nt)"
    and h: "heap pr' = (\<lambda>q. if q \<in> set (m_closingSockets nt) \<and> closed_in pr q then None
                                else heap pr q)"
    and n: "next_sock pr' = next_sock pr" and w: "the_world pr' = the_world pr"
    using assms(1) SocketCleanupWork_body_effect [OF assms(2)] by auto
  have o: "owned_once nt' pr'"
    using assms(2) unfolding owned_once_def by (auto simp: nt' h n)
  have c: "closing_closed nt' pr'"
    using assms(3) unfolding closing_closed_def by (auto simp: nt' h)
  have v: "streams_valid pr'"
    using assms(4) unfolding streams_valid_def
    by (simp add: h w split: if_splits)
  show ?thesis using o c v by simp
qed


lemma step_inv:
  assumes "step x st = Inr st'" and "worker_inv st"
  shows "worker_inv st'"
proof -
  obtain nt pr where st: "st = (nt, pr)" by (cases st)
  obtain nt' pr' where st': "st' = (nt', pr')" by (cases st')
  have i: "owned_once nt pr" "closing_closed nt pr" "streams_valid pr"
    using assms(2) st by (simp_all add: worker_inv_def)
  have "owned_once nt' pr' \<and> closing_closed nt' pr' \<and> streams_valid pr'"
  proof (cases x)
    case (Accept fd address)
    then have "CreateSocket fd address nt pr = (nt', pr')" using assms(1) st st' by simp
    then show ?thesis using i by (rule CreateSocket_inv)
  next
    case (CloseOp p)
    then have "Close_at p nt pr = Inr (nt', pr')" using assms(1) st st' by simp
    then show ?thesis using i by (rule Close_at_inv)
  next
    case (ReadOp p len)
    then have "Read_at p len pr = Inr pr'" and "nt' = nt"
      using assms(1) st st' by (auto split: sum.splits)
    then show ?thesis using Read_at_effect [of p len pr pr'] buffers_only_inv [of pr' pr nt] i
      by simp
  next
    case (WriteOp p data)
    then have "Write_at p data pr = Inr pr'" and "nt' = nt"
      using assms(1) st st' by (auto split: sum.splits)
    then show ?thesis using Write_at_effect [of p data pr pr'] buffers_only_inv [of pr' pr nt] i
      by simp
  next
    case (ReadSkipOp p len)
    then have "ReadSkip_at p len pr = Inr pr'" and "nt' = nt"
      using assms(1) st st' by (auto split: sum.splits)
    then show ?thesis using ReadSkip_at_effect [of p len pr pr'] buffers_only_inv [of pr' pr nt] i
      by simp
  next
    case CleanupTurn
    show ?thesis
    proof (cases "\<not> m_pendingShutdown nt \<or> m_closingSockets nt \<noteq> []")
      case True
      then have "SocketCleanupWork_body nt pr = Inr (nt', pr')"
        using assms(1) st st' CleanupTurn by simp
      then show ?thesis using i by (rule SocketCleanupWork_body_inv)
    next
      case False
      then have "nt' = nt" "pr' = pr" using assms(1) st st' CleanupTurn by simp_all
      then show ?thesis using i by simp
    qed
  qed
  then show ?thesis using st' by (simp add: worker_inv_def)
qed

lemma run_inv:
  "run xs st = Inr st' \<Longrightarrow> worker_inv st \<Longrightarrow> worker_inv st'"
proof (induction xs arbitrary: st)
  case Nil
  then show ?case by simp
next
  case (Cons x xs)
  then obtain st1 where s1: "step x st = Inr st1" and r: "run xs st1 = Inr st'"
    by (auto split: sum.splits)
  show ?case using Cons.IH [OF r step_inv [OF s1 Cons.prems(2)]] .
qed

lemma start_inv: "worker_inv (NetworkThread_new, program_start)"
  by (simp add: worker_inv_def owned_once_def closing_closed_def streams_valid_def
      NetworkThread_new_def program_start_def)

lemma count_list_distinct:
  "distinct xs \<Longrightarrow> count_list xs p = (if p \<in> set xs then 1 else 0)"
  by (induction xs) auto

lemma places_one:
  assumes "owned_once nt pr"
  shows "length (places nt pr p) = 1"
proof -
  have d: "distinct (m_sockets nt)" "distinct (m_closingSockets nt)"
    and disj: "set (m_sockets nt) \<inter> set (m_closingSockets nt) = {}"
    and dom: "(p \<in> set (m_sockets nt) \<or> p \<in> set (m_closingSockets nt)) = (heap pr p \<noteq> None)"
    using assms unfolding owned_once_def by auto
  show ?thesis
    using disj dom by (auto simp: places_def count_list_distinct [OF d(1)] count_list_distinct [OF d(2)])
qed

lemma Close_at_succeeds:
  assumes "heap pr p = Some s" and "streams_valid pr"
  shows "\<exists>nt' pr'. Close_at p nt pr = Inr (nt', pr')"
proof (cases "m_bev s")
  case None
  then show ?thesis using assms(1) by (simp add: Close_at_def Close_closed)
next
  case (Some b)
  then obtain be where "bevs (the_world pr) b = Some be"
    using assms unfolding streams_valid_def by blast
  then show ?thesis using assms(1) Some by (simp add: Close_at_def Close_live)
qed

lemma Close_at_shutdown:
  assumes "Close_at p nt pr = Inr (nt', pr')"
  shows "m_pendingShutdown nt' = m_pendingShutdown nt"
  using Close_at_effect [OF assms]
  by (auto simp: RemoveSocket_shutdown split: option.splits if_splits)

lemma erase_head_inv:
  assumes "m_sockets nt = p # ps" and "heap pr p = Some s"
    and "worker_inv (nt, pr)"
  shows "worker_inv (nt\<lparr>m_sockets := ps\<rparr>, pr\<lparr>heap := (heap pr)(p := None)\<rparr>)"
proof -
  have o: "owned_once nt pr" and c: "closing_closed nt pr" and v: "streams_valid pr"
    using assms(3) by (simp_all add: worker_inv_def)
  have pn: "p \<notin> set ps" "p \<notin> set (m_closingSockets nt)"
    using o assms(1) unfolding owned_once_def by auto
  have o': "owned_once (nt\<lparr>m_sockets := ps\<rparr>) (pr\<lparr>heap := (heap pr)(p := None)\<rparr>)"
    using o assms(1) pn unfolding owned_once_def by auto
  have c': "closing_closed (nt\<lparr>m_sockets := ps\<rparr>) (pr\<lparr>heap := (heap pr)(p := None)\<rparr>)"
    using c pn unfolding closing_closed_def by auto
  have v': "streams_valid (pr\<lparr>heap := (heap pr)(p := None)\<rparr>)"
    using v unfolding streams_valid_def by (simp split: if_splits)
  show ?thesis using o' c' v' by (simp add: worker_inv_def)
qed


lemma close_all_succeeds:
  "worker_inv (nt, pr) \<Longrightarrow>
     \<exists>nt' pr'. close_all nt pr = Inr (nt', pr') \<and> m_sockets nt' = []
        \<and> m_pendingShutdown nt' = m_pendingShutdown nt \<and> worker_inv (nt', pr')"
proof (induction nt pr rule: close_all.induct)
  case (1 nt pr)
  show ?case
  proof (cases "m_sockets nt")
    case Nil
    then show ?thesis using "1.prems" by (subst close_all.simps) simp
  next
    case (Cons p ps)
    have o: "owned_once nt pr" and v: "streams_valid pr"
      using "1.prems" by (simp_all add: worker_inv_def)
    have "p \<in> set (m_sockets nt)" using Cons by simp
    then have "heap pr p \<noteq> None" using o unfolding owned_once_def by blast
    then obtain s where s: "heap pr p = Some s" by (cases "heap pr p") simp_all
    show ?thesis
    proof (cases "IsClosed s")
      case True
      have dt: "Socket_dtor p pr = Inr (pr\<lparr>heap := (heap pr)(p := None)\<rparr>)"
        using s True by (simp add: Socket_dtor_def)
      have inv': "worker_inv (nt\<lparr>m_sockets := ps\<rparr>, pr\<lparr>heap := (heap pr)(p := None)\<rparr>)"
        using erase_head_inv [OF Cons s "1.prems"] .
      from "1.IH"(1) [OF Cons s True dt inv']
      obtain nt' pr' where
        "close_all (nt\<lparr>m_sockets := ps\<rparr>) (pr\<lparr>heap := (heap pr)(p := None)\<rparr>) = Inr (nt', pr')"
        "m_sockets nt' = []" "m_pendingShutdown nt' = m_pendingShutdown nt" "worker_inv (nt', pr')"
        by auto
      then show ?thesis using Cons s True dt by (subst close_all.simps) simp
    next
      case False
      obtain nt1 pr1 where cl: "Close_at p nt pr = Inr (nt1, pr1)"
        using Close_at_succeeds [OF s v] by blast
      have inv1: "worker_inv (nt1, pr1)"
        using Close_at_inv [OF cl] "1.prems" by (simp add: worker_inv_def)
      from "1.IH"(2) [OF Cons s False cl refl inv1]
      obtain nt' pr' where
        "close_all nt1 pr1 = Inr (nt', pr')"
        "m_sockets nt' = []" "m_pendingShutdown nt' = m_pendingShutdown nt1" "worker_inv (nt', pr')"
        by auto
      then show ?thesis using Cons s False cl Close_at_shutdown [OF cl]
        by (subst close_all.simps) simp
    qed
  qed
qed



lemma SocketCleanupWork_drains:
  assumes "worker_inv (nt, pr)" and "m_sockets nt = []" and "m_pendingShutdown nt"
  shows "\<exists>nt' pr'. SocketCleanupWork (nt, pr) = Some (Inr (nt', pr'))
           \<and> m_sockets nt' = [] \<and> m_closingSockets nt' = [] \<and> heap pr' = Map.empty"
proof -
  have o: "owned_once nt pr" and c: "closing_closed nt pr"
    using assms(1) by (simp_all add: worker_inv_def)
  have dom: "\<And>q. (q \<in> set (m_closingSockets nt)) = (heap pr q \<noteq> None)"
    using o assms(2) unfolding owned_once_def by simp
  show ?thesis
  proof (cases "m_closingSockets nt = []")
    case True
    have "heap pr = Map.empty" using dom True by (auto simp: fun_eq_iff)
    then show ?thesis using True assms(2,3) by (subst SocketCleanupWork.simps) simp
  next
    case False
    let ?nt2 = "nt\<lparr>m_closingSockets := filter (\<lambda>p. \<not> closed_in pr p) (m_closingSockets nt),
                   lock_log := lock_log nt @ [Acquire ClosingSocketLock, Release ClosingSocketLock]\<rparr>"
    let ?pr2 = "pr\<lparr>heap := (\<lambda>q. if q \<in> set (m_closingSockets nt) \<and> closed_in pr q then None
                                else heap pr q)\<rparr>"
    have body: "SocketCleanupWork_body nt pr = Inr (?nt2, ?pr2)"
      by (rule SocketCleanupWork_body_effect [OF o])
    have allc: "\<And>q. q \<in> set (m_closingSockets nt) \<Longrightarrow> closed_in pr q"
      using c unfolding closing_closed_def closed_in_def by fastforce
    have f: "filter (\<lambda>p. \<not> closed_in pr p) (m_closingSockets nt) = []"
      using allc by (simp add: filter_empty_conv)
    have h: "heap ?pr2 = Map.empty"
    proof
      fix q
      show "heap ?pr2 q = None"
      proof (cases "q \<in> set (m_closingSockets nt)")
        case True
        then show ?thesis using allc [OF True] by simp
      next
        case False
        then have "heap pr q = None" using dom [of q] by simp
        then show ?thesis by simp
      qed
    qed
    have second: "SocketCleanupWork (?nt2, ?pr2) = Some (Inr (?nt2, ?pr2))"
      using f assms(3) by (subst SocketCleanupWork.simps) simp
    have first: "SocketCleanupWork (nt, pr) = SocketCleanupWork (?nt2, ?pr2)"
      using False body by (subst SocketCleanupWork.simps) simp
    show ?thesis
      using first second f h assms(2) by (intro exI [of _ ?nt2] exI [of _ ?pr2]) simp
  qed
qed

lemma NetworkThread_dtor_succeeds:
  assumes "worker_inv (nt, pr)"
  shows "\<exists>nt' pr'. NetworkThread_dtor nt pr = Some (Inr (nt', pr'))
           \<and> m_sockets nt' = [] \<and> m_closingSockets nt' = [] \<and> heap pr' = Map.empty"
proof -
  from close_all_succeeds [OF assms] obtain nt1 pr1 where
    ca: "close_all nt pr = Inr (nt1, pr1)" and e: "m_sockets nt1 = []"
    and inv1: "worker_inv (nt1, pr1)"
    by blast
  have inv1': "worker_inv (nt1\<lparr>m_pendingShutdown := True\<rparr>, pr1)"
    using inv1 by (simp add: worker_inv_def owned_once_def closing_closed_def)
  from SocketCleanupWork_drains [OF inv1'] e obtain nt2 pr2 where
    dr: "SocketCleanupWork (nt1\<lparr>m_pendingShutdown := True\<rparr>, pr1) = Some (Inr (nt2, pr2))"
    and e2: "m_sockets nt2 = []" "m_closingSockets nt2 = []" "heap pr2 = Map.empty"
    by auto
  show ?thesis
    using ca dr e2 by (simp add: NetworkThread_dtor_def)
qed

lemma step_no_dtor_assert:
  assumes "worker_inv st"
  shows "step x st \<noteq> Inl DtorAssertFailed"
proof -
  obtain nt pr where st: "st = (nt, pr)" by (cases st)
  have o: "owned_once nt pr" using assms st by (simp add: worker_inv_def)
  show ?thesis
  proof (cases x)
    case (Accept fd address)
    then show ?thesis using st by simp
  next
    case (CloseOp p)
    then show ?thesis using st
      by (auto simp: Close_at_def Close_def Let_def split: option.splits sum.splits)
  next
    case (ReadOp p len)
    then show ?thesis using st
      by (auto simp: Read_at_def Read_def Let_def bufferevent_read_def
          split: option.splits sum.splits if_splits)
  next
    case (WriteOp p data)
    then show ?thesis using st
      by (auto simp: Write_at_def Write_def split: option.splits sum.splits)
  next
    case (ReadSkipOp p len)
    then show ?thesis using st
      by (auto simp: ReadSkip_at_def ReadSkip_def split: option.splits sum.splits)
  next
    case CleanupTurn
    then show ?thesis using st SocketCleanupWork_body_effect [OF o] by simp
  qed
qed

lemma run_no_dtor_assert:
  "worker_inv st \<Longrightarrow> run xs st \<noteq> Inl DtorAssertFailed"
proof (induction xs arbitrary: st)
  case Nil
  then show ?case by simp
next
  case (Cons x xs)
  show ?case
  proof (cases "step x st")
    case (Inl e)
    then show ?thesis using step_no_dtor_assert [OF Cons.prems, of x] by simp
  next
    case (Inr st1)
    then show ?thesis using Cons.IH [OF step_inv [OF Inr Cons.prems]] by simp
  qed
qed

lemma places_owned:
  assumes "owned_once nt pr"
  shows "places nt pr p =
           (if p \<in> set (m_sockets nt) then [Live]
            else if p \<in> set (m_closingSockets nt) then [Closing] else [Destroyed])"
proof -
  have d: "distinct (m_sockets nt)" "distinct (m_closingSockets nt)"
    and disj: "set (m_sockets nt) \<inter> set (m_closingSockets nt) = {}"
    and dom: "(p \<in> set (m_sockets nt) \<or> p \<in> set (m_closingSockets nt)) = (heap pr p \<noteq> None)"
    using assms unfolding owned_once_def by auto
  show ?thesis
    using disj dom
    by (auto simp: places_def count_list_distinct [OF d(1)] count_list_distinct [OF d(2)])
qed

lemma RemoveSocket_owned:
  assumes "owned_once nt pr"
  shows "owned_once (RemoveSocket p nt) pr"
proof -
  have d: "distinct (m_sockets nt @ m_closingSockets nt)"
    using assms unfolding owned_once_def by simp
  note l = RemoveSocket_lists [OF d, of p]
  have "\<And>q. (q \<in> set (m_sockets (RemoveSocket p nt)) \<or> q \<in> set (m_closingSockets (RemoveSocket p nt)))
            = (q \<in> set (m_sockets nt) \<or> q \<in> set (m_closingSockets nt))"
    using l by blast
  then show ?thesis using assms l unfolding owned_once_def by simp
qed

lemma RemoveSocket_lock_log:
  "lock_log (RemoveSocket p nt)
     = lock_log nt @ [Acquire SocketLock, Acquire ClosingSocketLock,
                      Release ClosingSocketLock, Release SocketLock]"
  by (simp add: RemoveSocket_def Let_def)

lemma one_place_create:
  assumes "owned_once nt pr" and "CreateSocket fd address nt pr = (nt', pr')"
  shows "places nt pr (next_sock pr) = [Destroyed] \<and> places nt' pr' (next_sock pr) = [Live]
       \<and> (\<forall>q. q \<noteq> next_sock pr \<longrightarrow> places nt' pr' q = places nt pr q)"
proof -
  have fresh: "heap pr (next_sock pr) = None"
    using assms(1) unfolding owned_once_def by (metis less_irrefl)
  then have nl: "next_sock pr \<notin> set (m_sockets nt)" "next_sock pr \<notin> set (m_closingSockets nt)"
    using assms(1) unfolding owned_once_def by auto
  from CreateSocket_effect [OF assms(2)] obtain s where
    e: "m_sockets nt' = next_sock pr # m_sockets nt"
       "m_closingSockets nt' = m_closingSockets nt"
       "heap pr' = (heap pr)(next_sock pr \<mapsto> s)"
    by auto
  show ?thesis
    using fresh nl by (simp add: places_def e)
qed

lemma one_place_remove:
  assumes "owned_once nt pr" and "p \<in> set (m_sockets nt)"
  shows "places nt pr p = [Live] \<and> places (RemoveSocket p nt) pr p = [Closing]
       \<and> (\<forall>q. q \<noteq> p \<longrightarrow> places (RemoveSocket p nt) pr q = places nt pr q)"
proof -
  have d: "distinct (m_sockets nt)" using assms(1) unfolding owned_once_def by simp
  have in_rm: "\<And>q. q \<in> set (remove1 p (m_sockets nt)) = (q \<in> set (m_sockets nt) \<and> q \<noteq> p)"
    using d by simp
  have pc: "p \<notin> set (m_closingSockets nt)"
    using assms unfolding owned_once_def by auto
  show ?thesis
    using assms(2) pc in_rm
    by (simp add: places_owned [OF assms(1)] places_owned [OF RemoveSocket_owned [OF assms(1)]]
        RemoveSocket_sockets RemoveSocket_closing)
qed

lemma one_place_cleanup:
  assumes "owned_once nt pr"
  shows "\<exists>nt' pr'. SocketCleanupWork_body nt pr = Inr (nt', pr')
           \<and> (\<forall>p. places nt' pr' p
                    = (if p \<in> set (m_closingSockets nt) \<and> closed_in pr p then [Destroyed]
                       else places nt pr p))"
proof -
  let ?nt2 = "nt\<lparr>m_closingSockets := filter (\<lambda>p. \<not> closed_in pr p) (m_closingSockets nt),
                 lock_log := lock_log nt @ [Acquire ClosingSocketLock, Release ClosingSocketLock]\<rparr>"
  let ?pr2 = "pr\<lparr>heap := (\<lambda>q. if q \<in> set (m_closingSockets nt) \<and> closed_in pr q then None
                              else heap pr q)\<rparr>"
  have body: "SocketCleanupWork_body nt pr = Inr (?nt2, ?pr2)"
    by (rule SocketCleanupWork_body_effect [OF assms])
  have o2: "owned_once ?nt2 ?pr2"
    using assms unfolding owned_once_def by auto
  have disj: "\<And>p. p \<in> set (m_closingSockets nt) \<Longrightarrow> p \<notin> set (m_sockets nt)"
    using assms unfolding owned_once_def by auto
  have "\<forall>p. places ?nt2 ?pr2 p
                    = (if p \<in> set (m_closingSockets nt) \<and> closed_in pr p then [Destroyed]
                       else places nt pr p)"
    using disj by (auto simp: places_owned [OF assms] places_owned [OF o2])
  then show ?thesis using body by blast
qed


lemma two_accepts_one_close_run:
  "\<exists>nt pr. run two_accepts_one_close (NetworkThread_new, program_start) = Inr (nt, pr)
     \<and> m_sockets nt = [1] \<and> m_closingSockets nt = [0] \<and> next_sock pr = 2
     \<and> (\<exists>s. heap pr 0 = Some s \<and> m_bev s = None) \<and> heap pr 1 \<noteq> None \<and> heap pr 2 = None"
  by (simp add: two_accepts_one_close_def NetworkThread_new_def program_start_def
      CreateSocket_def Socket_ctor_def bufferevent_socket_new_def record_call_def Let_def
      Close_at_def Close_def bufferevent_free_def run_closure_def RemoveSocket_def)

text \<open>
  C9: in every state a worker reaches (by accepting connections, by operations on its
  sockets, Close among them, and by turns of the cleanup loop), every socket is in exactly
  one place: once in the live list, or once in the closing list, or destroyed.
  CreateSocket puts the new socket in the live list only; RemoveSocket, holding the live
  lock and then the closing lock, moves a live socket to the closing list and moves no
  other; a turn of the cleanup loop destroys the closed sockets of the closing list and
  moves no other.
\<close>

theorem one_place:
  assumes "run xs (NetworkThread_new, program_start) = Inr (nt, pr)"
  shows "(\<forall>p. length (places nt pr p) = 1)
       \<and> (\<forall>fd address nt' pr'. CreateSocket fd address nt pr = (nt', pr')
            \<longrightarrow> places nt pr (next_sock pr) = [Destroyed]
              \<and> places nt' pr' (next_sock pr) = [Live]
              \<and> (\<forall>q. q \<noteq> next_sock pr \<longrightarrow> places nt' pr' q = places nt pr q))
       \<and> (\<forall>p. p \<in> set (m_sockets nt)
            \<longrightarrow> places nt pr p = [Live]
              \<and> places (RemoveSocket p nt) pr p = [Closing]
              \<and> (\<forall>q. q \<noteq> p \<longrightarrow> places (RemoveSocket p nt) pr q = places nt pr q)
              \<and> lock_log (RemoveSocket p nt)
                  = lock_log nt @ [Acquire SocketLock, Acquire ClosingSocketLock,
                                   Release ClosingSocketLock, Release SocketLock])
       \<and> (\<exists>nt' pr'. SocketCleanupWork_body nt pr = Inr (nt', pr')
             \<and> (\<forall>p. places nt' pr' p
                      = (if p \<in> set (m_closingSockets nt) \<and> closed_in pr p then [Destroyed]
                         else places nt pr p)))"
proof -
  have "worker_inv (nt, pr)" using run_inv [OF assms start_inv] .
  then have o: "owned_once nt pr" by (simp add: worker_inv_def)
  show ?thesis
  proof (intro conjI allI impI)
    fix p show "length (places nt pr p) = 1" using places_one [OF o] .
  next
    fix fd address nt' pr' q
    assume c: "CreateSocket fd address nt pr = (nt', pr')"
    show "places nt pr (next_sock pr) = [Destroyed]"
      using one_place_create [OF o c] by simp
    show "places nt' pr' (next_sock pr) = [Live]"
      using one_place_create [OF o c] by simp
    assume "q \<noteq> next_sock pr"
    then show "places nt' pr' q = places nt pr q"
      using one_place_create [OF o c] by simp
  next
    fix p q assume p: "p \<in> set (m_sockets nt)"
    show "places nt pr p = [Live]" using one_place_remove [OF o p] by simp
    show "places (RemoveSocket p nt) pr p = [Closing]" using one_place_remove [OF o p] by simp
    show "lock_log (RemoveSocket p nt)
                  = lock_log nt @ [Acquire SocketLock, Acquire ClosingSocketLock,
                                   Release ClosingSocketLock, Release SocketLock]"
      by (rule RemoveSocket_lock_log)
    assume "q \<noteq> p"
    then show "places (RemoveSocket p nt) pr q = places nt pr q"
      using one_place_remove [OF o p] by simp
  next
    show "\<exists>nt' pr'. SocketCleanupWork_body nt pr = Inr (nt', pr')
             \<and> (\<forall>p. places nt' pr' p
                      = (if p \<in> set (m_closingSockets nt) \<and> closed_in pr p then [Destroyed]
                         else places nt pr p))"
      by (rule one_place_cleanup [OF o])
  qed
qed

theorem one_place_witness:
  "\<exists>nt pr. run two_accepts_one_close (NetworkThread_new, program_start) = Inr (nt, pr)
     \<and> places nt pr 0 = [Closing] \<and> places nt pr 1 = [Live] \<and> places nt pr 2 = [Destroyed]
     \<and> length (places nt pr 0) = 1
     \<and> places (RemoveSocket 1 nt) pr 1 = [Closing]"
proof -
  from two_accepts_one_close_run obtain nt pr where
    r: "run two_accepts_one_close (NetworkThread_new, program_start) = Inr (nt, pr)"
    and l: "m_sockets nt = [1]" "m_closingSockets nt = [0]"
    and h: "\<exists>s. heap pr 0 = Some s \<and> m_bev s = None" "heap pr 1 \<noteq> None" "heap pr 2 = None"
    by blast
  note t = one_place [OF r]
  have one: "length (places nt pr 0) = 1" using t by blast
  have "1 \<in> set (m_sockets nt)" using l by simp
  then have rm: "places (RemoveSocket 1 nt) pr 1 = [Closing]" using t by blast
  have "places nt pr 0 = [Closing]" "places nt pr 1 = [Live]" "places nt pr 2 = [Destroyed]"
    using l h by (auto simp: places_def)
  then show ?thesis using r one rm by blast
qed

text \<open>
  C10: no run of a worker fails the assertion of the socket destructor, and in every state
  a worker reaches every socket of the closing list is closed, no step fails the
  assertion, and the destructor of the worker (the loop that closes or erases the live
  sockets, the join of the cleanup thread, the destruction of the lists) returns without
  a fault, with both lists empty and every socket destroyed.
\<close>

theorem closing_set_closed:
  "run xs (NetworkThread_new, program_start) \<noteq> Inl DtorAssertFailed
   \<and> (\<forall>nt pr. run xs (NetworkThread_new, program_start) = Inr (nt, pr)
        \<longrightarrow> (\<forall>p \<in> set (m_closingSockets nt). \<exists>s. heap pr p = Some s \<and> IsClosed s)
          \<and> (\<forall>x. step x (nt, pr) \<noteq> Inl DtorAssertFailed)
          \<and> (\<exists>nt' pr'. NetworkThread_dtor nt pr = Some (Inr (nt', pr'))
                \<and> m_sockets nt' = [] \<and> m_closingSockets nt' = [] \<and> heap pr' = Map.empty))"
proof (intro conjI allI impI)
  show "run xs (NetworkThread_new, program_start) \<noteq> Inl DtorAssertFailed"
    by (rule run_no_dtor_assert [OF start_inv])
next
  fix nt pr x
  assume r: "run xs (NetworkThread_new, program_start) = Inr (nt, pr)"
  have i: "worker_inv (nt, pr)" using run_inv [OF r start_inv] .
  show "\<forall>p \<in> set (m_closingSockets nt). \<exists>s. heap pr p = Some s \<and> IsClosed s"
    using i by (simp add: worker_inv_def closing_closed_def)
  show "step x (nt, pr) \<noteq> Inl DtorAssertFailed"
    by (rule step_no_dtor_assert [OF i])
  show "\<exists>nt' pr'. NetworkThread_dtor nt pr = Some (Inr (nt', pr'))
                \<and> m_sockets nt' = [] \<and> m_closingSockets nt' = [] \<and> heap pr' = Map.empty"
    by (rule NetworkThread_dtor_succeeds [OF i])
qed

theorem closing_set_closed_witness:
  "\<exists>nt pr. run two_accepts_one_close (NetworkThread_new, program_start) = Inr (nt, pr)
     \<and> m_closingSockets nt = [0]
     \<and> (\<exists>s. heap pr 0 = Some s \<and> IsClosed s)
     \<and> (\<exists>nt' pr'. NetworkThread_dtor nt pr = Some (Inr (nt', pr')) \<and> heap pr' = Map.empty)"
proof -
  from two_accepts_one_close_run obtain nt pr where
    r: "run two_accepts_one_close (NetworkThread_new, program_start) = Inr (nt, pr)"
    and l: "m_closingSockets nt = [0]"
    by blast
  note t = closing_set_closed [of two_accepts_one_close, THEN conjunct2, rule_format, OF r]
  have a: "\<exists>s. heap pr 0 = Some s \<and> IsClosed s" using t l by simp
  have b: "\<exists>nt' pr'. NetworkThread_dtor nt pr = Some (Inr (nt', pr')) \<and> heap pr' = Map.empty"
    using t by blast
  show ?thesis using r l a b by blast
qed

section \<open>Properties of Listener\<close>

lemma aton_999: "inet_aton_quad ''999.0.0.1'' = None"
  by (simp add: inet_aton_quad_def decimal_part_def digit_of_def)

lemma make_workers_all:
  assumes "\<forall>k < n. event_base_new_ok env k" and "i \<le> n"
  shows "make_workers env n i ws ths =
           (Inr (ws @ replicate (n - i) NetworkThread_new),
            ths @ concat (map (\<lambda>k. [CleanupThread k, ServiceThread k]) [i ..< n]))"
  using assms
proof (induction env n i ws ths rule: make_workers.induct)
  case (1 env n i ws ths)
  show ?case
  proof (cases "i < n")
    case True
    have ok: "event_base_new_ok env i" using "1.prems"(1) True by simp
    have c: "NetworkThread_ctor env i ths
               = (Inr NetworkThread_new, ths @ [CleanupThread i] @ [ServiceThread i])"
      using ok by (simp add: NetworkThread_ctor_def)
    have r: "replicate (n - i) NetworkThread_new
               = NetworkThread_new # replicate (n - (i + 1)) NetworkThread_new"
      using True by (cases "n - i") simp_all
    have u: "[i ..< n] = i # [i + 1 ..< n]" using True by (simp add: upt_conv_Cons)
    have ih: "make_workers env n (i + 1) (ws @ [NetworkThread_new])
                 (ths @ [CleanupThread i] @ [ServiceThread i])
               = (Inr ((ws @ [NetworkThread_new]) @ replicate (n - (i + 1)) NetworkThread_new),
                  (ths @ [CleanupThread i] @ [ServiceThread i])
                    @ concat (map (\<lambda>k. [CleanupThread k, ServiceThread k]) [i + 1 ..< n]))"
      using "1.IH" [OF True c [symmetric] refl "1.prems"(1)] True by simp
    show ?thesis
      using ih by (subst make_workers.simps) (simp add: True c r u)
  next
    case False
    then have "i = n" using "1.prems"(2) by simp
    then show ?thesis by (subst make_workers.simps) simp
  qed
qed

lemma make_workers_no_acceptor:
  "AcceptorThread \<notin> set ths \<Longrightarrow> AcceptorThread \<notin> set (snd (make_workers env n i ws ths))"
proof (induction env n i ws ths rule: make_workers.induct)
  case (1 env n i ws ths)
  show ?case
  proof (cases "i < n")
    case True
    show ?thesis
    proof (cases "event_base_new_ok env i")
      case False
      then show ?thesis using True "1.prems"
        by (subst make_workers.simps) (simp add: NetworkThread_ctor_def)
    next
      case ok: True
      have c: "NetworkThread_ctor env i ths
               = (Inr NetworkThread_new, ths @ [CleanupThread i] @ [ServiceThread i])"
        using ok by (simp add: NetworkThread_ctor_def)
      have "AcceptorThread \<notin> set (snd (make_workers env n (i + 1) (ws @ [NetworkThread_new])
                 (ths @ [CleanupThread i] @ [ServiceThread i])))"
        using "1.IH" [OF True c [symmetric] refl] "1.prems" by simp
      moreover have "make_workers env n i ws ths
                 = make_workers env n (i + 1) (ws @ [NetworkThread_new])
                     (ths @ [CleanupThread i] @ [ServiceThread i])"
        by (subst make_workers.simps) (simp add: True c)
      ultimately show ?thesis by simp
    qed
  next
    case False
    then show ?thesis using "1.prems" by (subst make_workers.simps) simp
  qed
qed


text \<open>
  C4, as the code has it: constructing a Listener with a bind address that \<open>inet_aton\<close> rejects
  fails, and the acceptor thread is never started. When the worker count is not negative
  and every reactor base can be created, the failure is the invalid bind address, and it
  comes after all the workers have been built: each of them has started its cleanup
  thread and its service thread by then.
\<close>

theorem invalid_bind_fails:
  assumes "inet_aton env bind_ip = None"
  shows "(\<exists>e. fst (Listener_ctor env bind_ip port workerThreads) = Inl e)
       \<and> AcceptorThread \<notin> set (snd (Listener_ctor env bind_ip port workerThreads))
       \<and> (0 \<le> workerThreads \<and> (\<forall>k \<le> nat workerThreads. event_base_new_ok env k)
            \<longrightarrow> Listener_ctor env bind_ip port workerThreads
                  = (Inl InvalidBindIP,
                     concat (map (\<lambda>k. [CleanupThread k, ServiceThread k])
                               [0 ..< nat workerThreads])))"
proof (intro conjI impI)
  obtain r ths where mw: "make_workers env (nat workerThreads) 0 [] [] = (r, ths)"
    by (cases "make_workers env (nat workerThreads) 0 [] []")
  have na: "AcceptorThread \<notin> set ths"
    using make_workers_no_acceptor [of "[]" env "nat workerThreads" 0 "[]"] mw by simp
  show "\<exists>e. fst (Listener_ctor env bind_ip port workerThreads) = Inl e"
    using assms mw by (cases r) (simp_all add: Listener_ctor_def)
  show "AcceptorThread \<notin> set (snd (Listener_ctor env bind_ip port workerThreads))"
    using assms mw na by (cases r) (simp_all add: Listener_ctor_def)
next
  assume a: "0 \<le> workerThreads \<and> (\<forall>k \<le> nat workerThreads. event_base_new_ok env k)"
  then have all: "\<forall>k < nat workerThreads. event_base_new_ok env k"
    and last: "event_base_new_ok env (nat workerThreads)"
    by simp_all
  have mw: "make_workers env (nat workerThreads) 0 [] []
              = (Inr (replicate (nat workerThreads) NetworkThread_new),
                 concat (map (\<lambda>k. [CleanupThread k, ServiceThread k]) [0 ..< nat workerThreads]))"
    using make_workers_all [OF all, of 0 "[]" "[]"] by simp
  show "Listener_ctor env bind_ip port workerThreads
          = (Inl InvalidBindIP,
             concat (map (\<lambda>k. [CleanupThread k, ServiceThread k]) [0 ..< nat workerThreads]))"
    using a assms last by (simp add: Listener_ctor_def mw)
qed

theorem invalid_bind_fails_witness:
  "Listener_ctor good_host ''999.0.0.1'' 8085 2
     = (Inl InvalidBindIP, [CleanupThread 0, ServiceThread 0, CleanupThread 1, ServiceThread 1])"
proof -
  have n: "inet_aton good_host ''999.0.0.1'' = None"
    by (simp add: good_host_def aton_999)
  have ok: "(0::int) \<le> 2 \<and> (\<forall>k \<le> nat 2. event_base_new_ok good_host k)"
    by (simp add: good_host_def)
  have u: "[0 ..< 2] = [0, Suc 0]" by (simp add: upt_conv_Cons)
  show ?thesis
    using invalid_bind_fails [OF n, of 8085 2, THEN conjunct2, THEN conjunct2, rule_format, OF ok]
    by (simp add: u)
qed

text \<open>
  With one worker, the construction with the bind address "999.0.0.1" fails after two
  threads have been started: it is not a failure with no thread started.
\<close>

theorem invalid_bind_threads_counterexample:
  "\<not> (\<exists>e. Listener_ctor good_host ''999.0.0.1'' 8085 1 = (Inl e, []))"
proof -
  have "make_workers good_host 1 0 [] [] = (Inr [NetworkThread_new], [CleanupThread 0, ServiceThread 0])"
    by (subst make_workers.simps, subst make_workers.simps)
       (simp add: NetworkThread_ctor_def good_host_def)
  then have "Listener_ctor good_host ''999.0.0.1'' 8085 1
               = (Inl InvalidBindIP, [CleanupThread 0, ServiceThread 0])"
    by (simp add: Listener_ctor_def good_host_def aton_999)
  then show ?thesis by simp
qed

lemma SelectWorker_loop_least:
  assumes "minIndex < i" and "i \<le> length ws" and "minSize = Size (ws ! minIndex)"
    and "\<forall>k < i. minSize \<le> Size (ws ! k)" and "\<forall>k < minIndex. minSize < Size (ws ! k)"
  shows "least_loaded ws (SelectWorker_loop ws i minIndex minSize)"
  using assms
proof (induction ws i minIndex minSize rule: SelectWorker_loop.induct)
  case (1 ws i minIndex minSize)
  show ?case
  proof (cases "i < length ws")
    case False
    then have "i = length ws" using "1.prems"(2) by simp
    then show ?thesis
      using "1.prems" by (subst SelectWorker_loop.simps) (simp add: least_loaded_def)
  next
    case True
    show ?thesis
    proof (cases "Size (ws ! i) < minSize")
      case less: True
      have a: "\<forall>k < i + 1. Size (ws ! i) \<le> Size (ws ! k)"
      proof (intro allI impI)
        fix k assume "k < i + 1"
        then have "k < i \<or> k = i" by auto
        then show "Size (ws ! i) \<le> Size (ws ! k)"
          using "1.prems"(4) less by auto
      qed
      have b: "\<forall>k < i. Size (ws ! i) < Size (ws ! k)"
        using "1.prems"(4) less by auto
      have "least_loaded ws (SelectWorker_loop ws (i + 1) i (Size (ws ! i)))"
        using "1.IH"(1) [OF True refl less _ _ refl a b] True by simp
      then show ?thesis
        using True less by (subst SelectWorker_loop.simps) (simp add: Let_def)
    next
      case geq: False
      have a: "\<forall>k < i + 1. minSize \<le> Size (ws ! k)"
      proof (intro allI impI)
        fix k assume "k < i + 1"
        then have "k < i \<or> k = i" by auto
        then show "minSize \<le> Size (ws ! k)"
          using "1.prems"(4) geq by auto
      qed
      have "least_loaded ws (SelectWorker_loop ws (i + 1) minIndex minSize)"
        using "1.IH"(2) [OF True refl geq _ _ "1.prems"(3) a "1.prems"(5)] True "1.prems"(1)
        by simp
      then show ?thesis
        using True geq by (subst SelectWorker_loop.simps) (simp add: Let_def)
    qed
  qed
qed

lemma SelectWorker_least:
  assumes "ws \<noteq> []"
  shows "\<exists>j. SelectWorker ws = Inr j \<and> least_loaded ws j"
proof -
  have "0 < length ws" using assms by simp
  then have "least_loaded ws (SelectWorker_loop ws 1 0 (Size (ws ! 0)))"
    by (intro SelectWorker_loop_least) (simp_all add: Suc_le_eq)
  then show ?thesis using assms by (simp add: SelectWorker_def)
qed


lemma balanced_least:
  assumes "balanced N K ws" and "0 < N" and "least_loaded ws j"
  shows "j = K mod N"
proof -
  let ?r = "K mod N"
  have r: "?r < N" using assms(2) by simp
  have len: "length ws = N" using assms(1) by (simp add: balanced_def)
  have sz: "\<And>i. i < N \<Longrightarrow> Size (ws ! i) = K div N + (if i < ?r then 1 else 0)"
    using assms(1) by (simp add: balanced_def)
  have j: "j < N" using assms(3) len by (simp add: least_loaded_def)
  have "Size (ws ! j) \<le> Size (ws ! ?r)"
    using assms(3) r len by (simp add: least_loaded_def)
  then have "\<not> j < ?r" using sz [OF j] sz [OF r] by (auto split: if_splits)
  moreover have "\<not> ?r < j"
  proof
    assume "?r < j"
    then have "Size (ws ! j) < Size (ws ! ?r)" using assms(3) by (simp add: least_loaded_def)
    then show False using sz [OF j] sz [OF r] by (auto split: if_splits)
  qed
  ultimately show ?thesis by simp
qed

lemma balanced_Suc:
  assumes "balanced N K ws" and "0 < N" and "Size nt' = Size (ws ! (K mod N)) + 1"
  shows "balanced N (Suc K) (ws[K mod N := nt'])"
proof -
  let ?r = "K mod N"
  have r: "?r < N" using assms(2) by simp
  have len: "length ws = N" using assms(1) by (simp add: balanced_def)
  have sz: "\<And>i. i < N \<Longrightarrow> Size (ws ! i) = K div N + (if i < ?r then 1 else 0)"
    using assms(1) by (simp add: balanced_def)
  have new: "Size nt' = K div N + 1" using assms(3) sz [OF r] by simp
  show ?thesis
  proof (cases "Suc ?r = N")
    case True
    then have d: "Suc K div N = Suc (K div N)" and m: "Suc K mod N = 0"
      by (simp_all add: div_Suc mod_Suc)
    show ?thesis
      unfolding balanced_def
    proof (intro conjI allI impI)
      show "length (ws[?r := nt']) = N" using len by simp
    next
      fix i assume i: "i < N"
      then have "i < ?r \<or> i = ?r" using True by auto
      then show "Size (ws[?r := nt'] ! i) = Suc K div N + (if i < Suc K mod N then 1 else 0)"
        using sz [OF i] new len i by (auto simp: d m)
    qed
  next
    case False
    then have d: "Suc K div N = K div N" and m: "Suc K mod N = Suc ?r"
      by (simp_all add: div_Suc mod_Suc)
    show ?thesis
      unfolding balanced_def
    proof (intro conjI allI impI)
      show "length (ws[?r := nt']) = N" using len by simp
    next
      fix i assume i: "i < N"
      show "Size (ws[?r := nt'] ! i) = Suc K div N + (if i < Suc K mod N then 1 else 0)"
        using sz [OF i] new len i by (cases "i = ?r") (auto simp: d m)
    qed
  qed
qed

lemma ceil_div:
  assumes "0 < (N::nat)" and "0 < K mod N"
  shows "(K + N - 1) div N = K div N + 1"
proof -
  define q where "q = K div N"
  obtain r' where r': "K mod N = Suc r'" using assms(2) by (cases "K mod N") simp_all
  have "r' < N" using mod_less_divisor [OF assms(1), of K] r' by simp
  have "K = K div N * N + K mod N" by simp
  then have "K = q * N + Suc r'" unfolding r' q_def .
  then have "K + N - 1 = r' + (q + 1) * N" by simp
  then have "(K + N - 1) div N = (r' + (q + 1) * N) div N" by simp
  also have "\<dots> = (q + 1) + r' div N" using assms(1) by (simp only: div_mult_self1)
  also have "\<dots> = q + 1" using \<open>r' < N\<close> by simp
  finally show ?thesis by (simp add: q_def)
qed


lemma AcceptCallback_effect:
  assumes "ws \<noteq> []"
  shows "\<exists>j nt' pr'. SelectWorker ws = Inr j \<and> least_loaded ws j
           \<and> AcceptCallback fd address (ws, pr) = Inr (ws[j := nt'], pr')
           \<and> Size nt' = Size (ws ! j) + 1"
proof -
  obtain j where j: "SelectWorker ws = Inr j" "least_loaded ws j"
    using SelectWorker_least [OF assms] by blast
  obtain nt' pr' where c: "CreateSocket fd address (ws ! j) pr = (nt', pr')"
    by (cases "CreateSocket fd address (ws ! j) pr")
  have "Size nt' = Size (ws ! j) + 1"
    using CreateSocket_effect [OF c] by (simp add: Size_def)
  moreover have "AcceptCallback fd address (ws, pr) = Inr (ws[j := nt'], pr')"
    using j(1) c by (simp add: AcceptCallback_def)
  ultimately show ?thesis using j by blast
qed

lemma accepts_append:
  "accepts (xs @ ys) st = (case accepts xs st of Inl e \<Rightarrow> Inl e | Inr st' \<Rightarrow> accepts ys st')"
  by (induction xs arbitrary: st) (auto split: sum.splits)

lemma accepts_balanced:
  assumes "0 < N"
  shows "balanced N K ws \<Longrightarrow>
           \<exists>ws' pr'. accepts cs (ws, pr) = Inr (ws', pr') \<and> balanced N (K + length cs) ws'"
proof (induction cs arbitrary: K ws pr)
  case Nil
  then show ?case by simp
next
  case (Cons c cs)
  have ne: "ws \<noteq> []" using Cons.prems assms by (auto simp: balanced_def)
  from AcceptCallback_effect [OF ne, of "fst c" "snd c" pr] obtain j nt' pr1 where
    j: "least_loaded ws j"
    and a: "AcceptCallback (fst c) (snd c) (ws, pr) = Inr (ws[j := nt'], pr1)"
    and sz: "Size nt' = Size (ws ! j) + 1"
    by blast
  have jr: "j = K mod N" using balanced_least [OF Cons.prems assms j] .
  have b: "balanced N (Suc K) (ws[j := nt'])"
    using balanced_Suc [OF Cons.prems assms, of nt'] sz jr by simp
  from Cons.IH [OF b, of pr1] obtain ws' pr' where
    "accepts cs (ws[j := nt'], pr1) = Inr (ws', pr')" "balanced N (Suc K + length cs) ws'"
    by blast
  then show ?case using a by simp
qed

lemma balanced_start: "balanced N 0 (replicate N NetworkThread_new)"
  by (simp add: balanced_def Size_def NetworkThread_new_def)

lemma balanced_floor_ceil:
  assumes "balanced N K ws" and "0 < N" and "i < N"
  shows "Size (ws ! i) = K div N \<or> Size (ws ! i) = (K + N - 1) div N"
proof (cases "i < K mod N")
  case True
  then have "0 < K mod N" by simp
  then show ?thesis using assms True ceil_div [OF assms(2)] by (simp add: balanced_def)
next
  case False
  then show ?thesis using assms by (simp add: balanced_def)
qed

text \<open>
  C5: for \<open>N \<ge> 1\<close> workers that start empty and \<open>K\<close> connections accepted one
  after the other with nothing closed, all accepts succeed and afterwards the live list
  of every worker has \<open>K div N\<close> or \<open>(K + N - 1) div N\<close> sockets (the floor and the
  ceiling of K/N); and at each accept SelectWorker returns a worker whose live list is
  no longer than any other's and strictly shorter than that of every worker of lower
  index, and the new socket goes to the live list of that worker.
\<close>

theorem least_loaded_distribution:
  assumes "1 \<le> N" and "length cs = K"
  shows "(\<exists>ws' pr'. accepts cs (replicate N NetworkThread_new, program_start) = Inr (ws', pr')
            \<and> length ws' = N
            \<and> (\<forall>i < N. Size (ws' ! i) = K div N \<or> Size (ws' ! i) = (K + N - 1) div N))
       \<and> (\<forall>k < K. \<exists>ws pr j nt' pr'.
              accepts (take k cs) (replicate N NetworkThread_new, program_start) = Inr (ws, pr)
              \<and> SelectWorker ws = Inr j \<and> j < N
              \<and> (\<forall>i < N. Size (ws ! j) \<le> Size (ws ! i))
              \<and> (\<forall>i < j. Size (ws ! j) < Size (ws ! i))
              \<and> accepts (take (Suc k) cs) (replicate N NetworkThread_new, program_start)
                  = Inr (ws[j := nt'], pr')
              \<and> Size nt' = Size (ws ! j) + 1)"
proof (intro conjI allI impI)
  have N: "0 < N" using assms(1) by simp
  from accepts_balanced [OF N balanced_start, of cs program_start] obtain ws' pr' where
    r: "accepts cs (replicate N NetworkThread_new, program_start) = Inr (ws', pr')"
    and b: "balanced N K ws'"
    using assms(2) by auto
  have "length ws' = N" using b by (simp add: balanced_def)
  moreover have "\<forall>i < N. Size (ws' ! i) = K div N \<or> Size (ws' ! i) = (K + N - 1) div N"
    using balanced_floor_ceil [OF b N] by blast
  ultimately show "\<exists>ws' pr'. accepts cs (replicate N NetworkThread_new, program_start) = Inr (ws', pr')
            \<and> length ws' = N
            \<and> (\<forall>i < N. Size (ws' ! i) = K div N \<or> Size (ws' ! i) = (K + N - 1) div N)"
    using r by blast
next
  fix k assume k: "k < K"
  have N: "0 < N" using assms(1) by simp
  from accepts_balanced [OF N balanced_start, of "take k cs" program_start] obtain ws pr where
    r: "accepts (take k cs) (replicate N NetworkThread_new, program_start) = Inr (ws, pr)"
    and b: "balanced N (length (take k cs)) ws"
    by auto
  have len: "length ws = N" using b by (simp add: balanced_def)
  then have ne: "ws \<noteq> []" using N by auto
  from AcceptCallback_effect [OF ne, of "fst (cs ! k)" "snd (cs ! k)" pr] obtain j nt' pr' where
    s: "SelectWorker ws = Inr j" and l: "least_loaded ws j"
    and a: "AcceptCallback (fst (cs ! k)) (snd (cs ! k)) (ws, pr) = Inr (ws[j := nt'], pr')"
    and sz: "Size nt' = Size (ws ! j) + 1"
    by blast
  have t: "take (Suc k) cs = take k cs @ [cs ! k]"
    using k assms(2) by (simp add: take_Suc_conv_app_nth)
  have r2: "accepts (take (Suc k) cs) (replicate N NetworkThread_new, program_start)
              = Inr (ws[j := nt'], pr')"
    unfolding t using r a by (simp add: accepts_append)
  have "j < N" "\<forall>i < N. Size (ws ! j) \<le> Size (ws ! i)" "\<forall>i < j. Size (ws ! j) < Size (ws ! i)"
    using l len by (simp_all add: least_loaded_def)
  then show "\<exists>ws pr j nt' pr'.
              accepts (take k cs) (replicate N NetworkThread_new, program_start) = Inr (ws, pr)
              \<and> SelectWorker ws = Inr j \<and> j < N
              \<and> (\<forall>i < N. Size (ws ! j) \<le> Size (ws ! i))
              \<and> (\<forall>i < j. Size (ws ! j) < Size (ws ! i))
              \<and> accepts (take (Suc k) cs) (replicate N NetworkThread_new, program_start)
                  = Inr (ws[j := nt'], pr')
              \<and> Size nt' = Size (ws ! j) + 1"
    using r s r2 sz by blast
qed

theorem least_loaded_distribution_witness:
  "\<exists>ws' pr'. accepts (replicate 8 (5, peer1)) (replicate 4 NetworkThread_new, program_start)
                = Inr (ws', pr')
     \<and> length ws' = 4
     \<and> Size (ws' ! 0) = 2 \<and> Size (ws' ! 1) = 2 \<and> Size (ws' ! 2) = 2 \<and> Size (ws' ! 3) = 2"
proof -
  have a: "(1::nat) \<le> 4" and b: "length (replicate 8 (5::int, peer1)) = 8" by simp_all
  from least_loaded_distribution [OF a b, THEN conjunct1] obtain ws' pr' where
    r: "accepts (replicate 8 (5, peer1)) (replicate 4 NetworkThread_new, program_start)
          = Inr (ws', pr')"
    and l: "length ws' = 4"
    and s: "\<forall>i < 4. Size (ws' ! i) = 8 div 4 \<or> Size (ws' ! i) = (8 + 4 - 1) div 4"
    by blast
  have "Size (ws' ! 0) = 2" "Size (ws' ! 1) = 2" "Size (ws' ! 2) = 2" "Size (ws' ! 3) = 2"
    using s by simp_all
  then show ?thesis using r l by blast
qed

end
